theory Spec2Isabelle
  imports Complex_Main "HOL-Library.AList"
begin

section \<open>LDAP-Scout: parser and classifier of LDAP search output\<close>

text \<open>
  A shallow embedding of \<^verbatim>\<open>src/LDAP-Scout.py\<close>.

  \<^item> A Python \<^verbatim>\<open>str\<close> is a \<open>string\<close>; a \<open>char\<close> stands for a code point below 256.
  \<^item> A Python \<^verbatim>\<open>dict\<close> is an association list in insertion order (the iteration
    order of a dict); a dict has distinct keys, which is a hypothesis wherever a
    statement depends on it.
  \<^item> An exception is the \<open>Inl\<close> branch of a sum.
  \<^item> \<^verbatim>\<open>print\<close> is modelled by returning what is printed.
\<close>

datatype py_error = IndexError | KeyError | ValueError

subsection \<open>Strings: \<^verbatim>\<open>str.strip\<close>, \<^verbatim>\<open>str.splitlines\<close>, \<^verbatim>\<open>str.split(":", 1)\<close>\<close>

text \<open>
  \<^verbatim>\<open>str.isspace\<close> on the code points below 256: U+0009 to U+000D, U+001C to U+001F,
  U+0020, U+0085 and U+00A0.
\<close>

definition is_space :: "char \<Rightarrow> bool" where
  "is_space c = (of_char c \<in> {9, 10, 11, 12, 13, 28, 29, 30, 31, 32, 133, 160 :: nat})"

text \<open>\<^verbatim>\<open>s.strip()\<close>: drop the leading and the trailing whitespace.\<close>

definition strip :: "string \<Rightarrow> string" where
  "strip s = rev (dropWhile is_space (rev (dropWhile is_space s)))"

text \<open>
  The line boundaries of \<^verbatim>\<open>str.splitlines\<close> below 256: LF, VT, FF, CR, FS, GS, RS and
  NEL; CR LF is one boundary.
\<close>

definition is_linebreak :: "char \<Rightarrow> bool" where
  "is_linebreak c = (of_char c \<in> {10, 11, 12, 13, 28, 29, 30, 133 :: nat})"

text \<open>
  \<^verbatim>\<open>splitlines\<close> with the line being read as an accumulator: a boundary ends the
  line (also an empty one); what is left at the end of the text is a line only when it
  is not empty.
\<close>

fun splitlines_from :: "string \<Rightarrow> string \<Rightarrow> string list" where
  "splitlines_from cur [] = (if cur = [] then [] else [cur])"
| "splitlines_from cur [c] =
     (if is_linebreak c then [cur] else [cur @ [c]])"
| "splitlines_from cur (c # d # cs) =
     (if of_char c = (13 :: nat) \<and> of_char d = (10 :: nat) then cur # splitlines_from [] cs
      else if is_linebreak c then cur # splitlines_from [] (d # cs)
      else splitlines_from (cur @ [c]) (d # cs))"

definition splitlines :: "string \<Rightarrow> string list" where
  "splitlines s = splitlines_from [] s"

text \<open>
  \<^verbatim>\<open>line.split(":", 1)\<close>: the text before the first colon and the text after it, or
  the whole line alone when it has no colon.
\<close>

definition split_colon :: "string \<Rightarrow> string list" where
  "split_colon s =
     (if CHR '':'' \<in> set s
      then [takeWhile (\<lambda>c. c \<noteq> CHR '':'') s, tl (dropWhile (\<lambda>c. c \<noteq> CHR '':'') s)]
      else [s])"

subsection \<open>Entries and \<^verbatim>\<open>parse_ldap_output\<close>\<close>

type_synonym entry = "(string \<times> string list) list"

text \<open>\<^verbatim>\<open>key in user\<close>, and \<^verbatim>\<open>user.keys()\<close>.\<close>

definition keys :: "('k \<times> 'v) list \<Rightarrow> 'k list" where
  "keys d = map fst d"

definition has_key :: "'k \<Rightarrow> ('k \<times> 'v) list \<Rightarrow> bool" where
  "has_key k d = (k \<in> set (keys d))"

text \<open>
  The continuation branch, lines 47 to 49: \<^verbatim>\<open>user[last_key][-1] += " " + line.strip()\<close>
  with \<open>last_key\<close> the last key of \<open>user\<close>. Indexing an empty value list with
  \<^verbatim>\<open>[-1]\<close> raises \<^verbatim>\<open>IndexError\<close>.
\<close>

definition continue_last :: "entry \<Rightarrow> string \<Rightarrow> py_error + entry" where
  "continue_last user line =
     (let last_key = last (keys user) in
      case map_of user last_key of
        None \<Rightarrow> Inl KeyError
      | Some vs \<Rightarrow>
          if vs = [] then Inl IndexError
          else Inr (AList.map_entry last_key
                      (\<lambda>vs. butlast vs @ [last vs @ '' '' @ strip line]) user))"

text \<open>
  The body of the loop of \<^verbatim>\<open>parse_ldap_output\<close>, lines 35 to 49, on the state
  \<open>(users, user)\<close>. \<^verbatim>\<open>key, value = map(str.strip, line.split(":", 1))\<close> raises
  \<^verbatim>\<open>ValueError\<close> unless the split has two parts.
\<close>

definition parse_line :: "entry list \<times> entry \<Rightarrow> string \<Rightarrow> py_error + entry list \<times> entry" where
  "parse_line st raw =
     (case st of (users, user) \<Rightarrow>
        let line = strip raw in
        if line = [] then Inr (if user \<noteq> [] then users @ [user] else users, [])
        else if CHR '':'' \<in> set line then
          (case map strip (split_colon line) of
             [key, value] \<Rightarrow>
               if has_key key user
               then Inr (users, AList.map_entry key (\<lambda>vs. vs @ [value]) user)
               else Inr (users, user @ [(key, [value])])
           | _ \<Rightarrow> Inl ValueError)
        else if user \<noteq> [] \<and> last (keys user) \<noteq> [] then
          (case continue_last user line of
             Inl e \<Rightarrow> Inl e
           | Inr user' \<Rightarrow> Inr (users, user'))
        else Inr (users, user))"

fun parse_lines :: "entry list \<times> entry \<Rightarrow> string list \<Rightarrow> py_error + entry list \<times> entry" where
  "parse_lines st [] = Inr st"
| "parse_lines st (l # ls) =
     (case parse_line st l of Inl e \<Rightarrow> Inl e | Inr st' \<Rightarrow> parse_lines st' ls)"

definition parse_ldap_output :: "string \<Rightarrow> py_error + entry list" where
  "parse_ldap_output ldap_output =
     (case parse_lines ([], []) (splitlines ldap_output) of
        Inl e \<Rightarrow> Inl e
      | Inr (users, user) \<Rightarrow> Inr (if user \<noteq> [] then users @ [user] else users))"

subsection \<open>Floating point: \<^verbatim>\<open>count < total_users * fraction\<close>\<close>

text \<open>
  The thresholds are IEEE doubles and \<^verbatim>\<open>total_users * fraction\<close> is a double
  product, rounded to nearest, ties to even. A double \<open>d\<close> that is a literal of the
  source is represented by the natural number \<open>d * 2 ^ 55\<close>: each of them is a multiple
  of \<open>2 ^ -55\<close>. Overflow to infinity is not modelled (it needs more than
  \<open>2 ^ 1023\<close> entries).
\<close>

type_synonym py_float = nat

text \<open>\<^verbatim>\<open>int.bit_length\<close>.\<close>

fun bit_length :: "nat \<Rightarrow> nat" where
  "bit_length n = (if n = 0 then 0 else Suc (bit_length (n div 2)))"

declare bit_length.simps [simp del]

text \<open>
  Rounding a natural number to 53 significant bits, to nearest, ties to even: what
  the conversion of an \<^verbatim>\<open>int\<close> to a double does, and what the product of two
  doubles does to the exact product.
\<close>

definition round53 :: "nat \<Rightarrow> nat" where
  "round53 a =
     (if bit_length a \<le> 53 then a
      else let s = bit_length a - 53; q = a div 2 ^ s; r = a mod 2 ^ s; h = 2 ^ (s - 1)
           in (if h < r \<or> (r = h \<and> odd q) then q + 1 else q) * 2 ^ s)"

text \<open>
  \<^verbatim>\<open>c < n * f\<close> for the ints \<open>c\<close> and \<open>n\<close> and the double \<open>f\<close>: \<open>n\<close> is converted
  to a double, the product is rounded, and the comparison of an int with a double is
  exact.
\<close>

definition int_lt_mul :: "nat \<Rightarrow> nat \<Rightarrow> py_float \<Rightarrow> bool" where
  "int_lt_mul c n f = (c * 2 ^ 55 < round53 (round53 n * f))"

text \<open>The doubles written \<^verbatim>\<open>0.1\<close>, \<^verbatim>\<open>0.25\<close>, \<^verbatim>\<open>0.5\<close>, \<^verbatim>\<open>0.75\<close>, \<^verbatim>\<open>0.95\<close> and \<^verbatim>\<open>0.6\<close>.\<close>

definition float_0_1 :: py_float where "float_0_1 = 3602879701896397"
definition float_0_25 :: py_float where "float_0_25 = 9007199254740992"
definition float_0_5 :: py_float where "float_0_5 = 18014398509481984"
definition float_0_75 :: py_float where "float_0_75 = 27021597764222976"
definition float_0_95 :: py_float where "float_0_95 = 34227357168015768"
definition float_0_6 :: py_float where "float_0_6 = 21617278211378380"

subsection \<open>The constants of the module\<close>

definition standard_ldap_fields :: "string set" where
  "standard_ldap_fields =
     {''dn'', ''objectClass'', ''cn'', ''sn'', ''givenName'', ''distinguishedName'',
      ''instanceType'', ''whenCreated'', ''whenChanged'', ''displayName'', ''uSNCreated'',
      ''uSNChanged'', ''name'', ''objectGUID'', ''userAccountControl'', ''badPwdCount'',
      ''codePage'', ''countryCode'', ''badPasswordTime'', ''lastLogoff'', ''lastLogon'',
      ''pwdLastSet'', ''primaryGroupID'', ''objectSid'', ''adminCount'', ''accountExpires'',
      ''logonCount'', ''sAMAccountName'', ''sAMAccountType'', ''objectCategory'',
      ''isCriticalSystemObject'', ''dSCorePropagationData'', ''telephoneNumber'', ''mail'',
      ''memberOf'', ''description'', ''title'', ''department'', ''company'',
      ''streetAddress'', ''postalCode'', ''c'', ''l'', ''st''}"

text \<open>\<^verbatim>\<open>threshold_levels\<close>; a level that is not a key raises \<^verbatim>\<open>KeyError\<close>.\<close>

definition threshold_levels :: "int \<Rightarrow> py_float option" where
  "threshold_levels level =
     (if level = 1 then Some float_0_1
      else if level = 2 then Some float_0_25
      else if level = 3 then Some float_0_5
      else if level = 4 then Some float_0_75
      else if level = 5 then Some float_0_95
      else None)"

text \<open>The colours of \<^verbatim>\<open>colorama.Fore\<close> that the module uses.\<close>

datatype fore = RED | YELLOW | GREEN | MAGENTA | CYAN | RESET

text \<open>
  \<^verbatim>\<open>Counter\<close> updated with the keys of every user; a \<^verbatim>\<open>Counter\<close> gives 0 at a key
  it does not have.
\<close>

definition field_count :: "entry list \<Rightarrow> string \<Rightarrow> nat" where
  "field_count users field = count_list (concat (map keys users)) field"

text \<open>\<^verbatim>\<open>user.get("cn", ["Unknown"])[0]\<close>; \<^verbatim>\<open>[0]\<close> of an empty list raises.\<close>

definition username :: "entry \<Rightarrow> py_error + string" where
  "username user =
     (case (case map_of user ''cn'' of None \<Rightarrow> [''Unknown''] | Some vs \<Rightarrow> vs) of
        [] \<Rightarrow> Inl IndexError
      | v # _ \<Rightarrow> Inr v)"

subsection \<open>\<^verbatim>\<open>list_users\<close>\<close>

text \<open>
  The state of the loop is what has been printed, one pair of colour and name for each
  \<^verbatim>\<open>print(f"{color}{username}{Style.RESET_ALL}")\<close>, and \<open>displayed_users\<close>.
  The parameter \<open>counts\<close> is the \<^verbatim>\<open>field_count\<close> of the source.
\<close>

definition list_users_body ::
  "entry list \<Rightarrow> (string \<Rightarrow> nat) \<Rightarrow> (fore \<times> string) list \<times> nat \<Rightarrow> entry
     \<Rightarrow> py_error + (fore \<times> string) list \<times> nat" where
  "list_users_body users counts st user =
     (case st of (out, displayed_users) \<Rightarrow>
        (case username user of
          Inl e \<Rightarrow> Inl e
        | Inr name \<Rightarrow>
            if name = ''Unknown'' then Inr (out, displayed_users)
            else
              let non_standard = list_ex (\<lambda>field. field \<notin> standard_ldap_fields) (keys user);
                  rare_field = list_ex (\<lambda>field.
                                  int_lt_mul (counts field) (length users) float_0_6) (keys user);
                  color = (if non_standard then RED else if rare_field then YELLOW else RESET)
              in Inr (out @ [(color, name)], displayed_users + 1)))"

fun list_users_loop ::
  "entry list \<Rightarrow> (string \<Rightarrow> nat) \<Rightarrow> (fore \<times> string) list \<times> nat \<Rightarrow> entry list
     \<Rightarrow> py_error + (fore \<times> string) list \<times> nat" where
  "list_users_loop users counts st [] = Inr st"
| "list_users_loop users counts st (user # rest) =
     (case list_users_body users counts st user of
        Inl e \<Rightarrow> Inl e
      | Inr st' \<Rightarrow> list_users_loop users counts st' rest)"

text \<open>
  \<open>list_users\<close> returns what it printed after the heading, and \<open>displayed_users\<close>.
\<close>

definition list_users ::
  "entry list \<Rightarrow> (string \<Rightarrow> nat) \<Rightarrow> py_error + (fore \<times> string) list \<times> nat" where
  "list_users users counts = list_users_loop users counts ([], 0) users"

subsection \<open>\<^verbatim>\<open>validate_fields\<close>\<close>

text \<open>The valid fields, and the fields a warning was printed for.\<close>

definition validate_fields :: "string list \<Rightarrow> string set \<Rightarrow> string list \<times> string list" where
  "validate_fields fields existing_fields =
     (filter (\<lambda>field. field \<in> existing_fields) fields,
      filter (\<lambda>field. field \<notin> existing_fields) fields)"

subsection \<open>\<^verbatim>\<open>find_non_standard_fields\<close>\<close>

text \<open>
  A result maps a field to \<^verbatim>\<open>(label, color + field + Style.RESET_ALL, value)\<close>; the
  coloured field is the pair of its colour and the field.
\<close>

type_synonym result = "(string \<times> string \<times> (fore \<times> string) \<times> string list) list"

text \<open>Lines 124 to 132: \<open>non_standard_user_data\<close> after the loop over the items.\<close>

definition classify_fields :: "entry list \<Rightarrow> string set \<Rightarrow> py_float \<Rightarrow> entry \<Rightarrow> result" where
  "classify_fields users exclude_fields threshold_percentage user =
     foldl (\<lambda>d (field, value).
        if field \<notin> exclude_fields \<and>
           (field \<notin> standard_ldap_fields \<or>
            int_lt_mul (field_count users field) (length users) threshold_percentage)
        then AList.update field
               (if field \<notin> standard_ldap_fields then ''Non-Standard Field''
                else ''Rare Standard Field'',
                (if field \<notin> standard_ldap_fields then MAGENTA else YELLOW, field),
                value) d
        else d) [] user"

text \<open>Lines 137 to 139: the loop over \<open>include_fields\<close>.\<close>

definition add_included :: "string list \<Rightarrow> entry \<Rightarrow> result \<Rightarrow> result" where
  "add_included include_fields user d0 =
     foldl (\<lambda>d include_field.
        case map_of user include_field of
          None \<Rightarrow> d
        | Some value \<Rightarrow>
            AList.update include_field (''Included Field'', (GREEN, include_field), value) d)
       d0 include_fields"

text \<open>Lines 144 to 147: \<open>include_all_user_data\<close>.\<close>

definition include_all_data :: "string list \<Rightarrow> entry \<Rightarrow> result" where
  "include_all_data include_all_fields user =
     foldl (\<lambda>d field.
        case map_of user field of
          None \<Rightarrow> d
        | Some value \<Rightarrow> AList.update field (''Include-All Field'', (GREEN, field), value) d)
       [] include_all_fields"

text \<open>
  The body of the loop over the users, lines 120 to 148, on the state
  \<open>(non_standard_fields_per_user, additional_include_users)\<close>.
\<close>

definition fnsf_body ::
  "entry list \<Rightarrow> string set \<Rightarrow> string list \<Rightarrow> string list \<Rightarrow> py_float
     \<Rightarrow> (string \<times> result) list \<times> (string \<times> result) list \<Rightarrow> entry
     \<Rightarrow> py_error + (string \<times> result) list \<times> (string \<times> result) list" where
  "fnsf_body users exclude_fields include_fields include_all_fields threshold_percentage st user =
     (case st of (non_standard_fields_per_user, additional_include_users) \<Rightarrow>
        (case username user of
          Inl e \<Rightarrow> Inl e
        | Inr name \<Rightarrow>
            if name = ''Unknown'' \<and> \<not> has_key ''description'' user
            then Inr (non_standard_fields_per_user, additional_include_users)
            else
              let non_standard_user_data =
                    classify_fields users exclude_fields threshold_percentage user;
                  primary =
                    (if non_standard_user_data \<noteq> []
                     then non_standard_fields_per_user @
                            [(name, add_included include_fields user non_standard_user_data)]
                     else non_standard_fields_per_user);
                  additional =
                    (if include_all_fields \<noteq> [] \<and>
                        list_ex (\<lambda>field. has_key field user) include_all_fields
                     then additional_include_users @
                            [(name, include_all_data include_all_fields user)]
                     else additional_include_users)
              in Inr (primary, additional)))"

fun fnsf_loop ::
  "entry list \<Rightarrow> string set \<Rightarrow> string list \<Rightarrow> string list \<Rightarrow> py_float
     \<Rightarrow> (string \<times> result) list \<times> (string \<times> result) list \<Rightarrow> entry list
     \<Rightarrow> py_error + (string \<times> result) list \<times> (string \<times> result) list" where
  "fnsf_loop users ex inc inc_all thr st [] = Inr st"
| "fnsf_loop users ex inc inc_all thr st (user # rest) =
     (case fnsf_body users ex inc inc_all thr st user of
        Inl e \<Rightarrow> Inl e
      | Inr st' \<Rightarrow> fnsf_loop users ex inc inc_all thr st' rest)"

definition find_non_standard_fields ::
  "entry list \<Rightarrow> string set \<Rightarrow> string list \<Rightarrow> string list \<Rightarrow> int
     \<Rightarrow> py_error + (string \<times> result) list \<times> (string \<times> result) list" where
  "find_non_standard_fields users exclude_fields include_fields include_all_fields threshold_level =
     (case threshold_levels threshold_level of
        None \<Rightarrow> Inl KeyError
      | Some threshold_percentage \<Rightarrow>
          fnsf_loop users exclude_fields include_fields include_all_fields
            threshold_percentage ([], []) users)"

subsection \<open>The script: validation, then classification (lines 219 to 228)\<close>

text \<open>
  \<open>include_fields\<close> and \<open>include_all_fields\<close> are sets when they are validated; the
  lists here are the order in which they are iterated. The result is the warnings of
  the two validations, the validated lists and what \<open>find_non_standard_fields\<close>
  returns on them.
\<close>

definition all_fields_in_data :: "entry list \<Rightarrow> string set" where
  "all_fields_in_data users = set (concat (map keys users))"

definition validate_and_classify ::
  "entry list \<Rightarrow> string set \<Rightarrow> string list \<Rightarrow> string list \<Rightarrow> int
     \<Rightarrow> string list \<times> (string list \<times> string list)
         \<times> (py_error + (string \<times> result) list \<times> (string \<times> result) list)" where
  "validate_and_classify users exclude_fields include_fields include_all_fields threshold_level =
     (let (include_fields', warned) =
            validate_fields include_fields (all_fields_in_data users);
          (include_all_fields', warned_all) =
            validate_fields include_all_fields (all_fields_in_data users)
      in (warned @ warned_all, (include_fields', include_all_fields'),
          find_non_standard_fields users exclude_fields include_fields' include_all_fields'
            threshold_level))"

subsection \<open>Reading the outputs\<close>

text \<open>
  The fields that carry a given label in the results of a list of pairs of name and
  result, in the order of the results.
\<close>

definition fields_labelled :: "string \<Rightarrow> (string \<times> result) list \<Rightarrow> string list" where
  "fields_labelled label pairs =
     concat (map (\<lambda>(name, d). map fst (filter (\<lambda>(field, l, c, v). l = label) d)) pairs)"

subsection \<open>The tiers of the entry inventory, in the words of the specification\<close>

text \<open>
  These three definitions follow the specification of the entry inventory, not the
  source: the display name is the first value of \<open>cn\<close>, or \<open>Unknown\<close>; the tier is
  non-standard if any attribute of the entry is not in the standard set, else rare if
  the frequency of any attribute is below \<^verbatim>\<open>0.6 * total_entries\<close> (the product
  being Python's), else standard. \<open>tier_colour\<close> is the colour that \<open>list_users\<close>
  prints a tier in.
\<close>

datatype tier = NonStandard | Rare | Standard

definition display_name_spec :: "entry \<Rightarrow> string" where
  "display_name_spec e = (case map_of e ''cn'' of Some (v # vs) \<Rightarrow> v | _ \<Rightarrow> ''Unknown'')"

definition tier_spec :: "nat \<Rightarrow> (string \<Rightarrow> nat) \<Rightarrow> entry \<Rightarrow> tier" where
  "tier_spec total_entries frequency e =
     (if \<exists>f \<in> set (keys e). f \<notin> standard_ldap_fields then NonStandard
      else if \<exists>f \<in> set (keys e). int_lt_mul (frequency f) total_entries float_0_6 then Rare
      else Standard)"

fun tier_colour :: "tier \<Rightarrow> fore" where
  "tier_colour NonStandard = RED"
| "tier_colour Rare = YELLOW"
| "tier_colour Standard = RESET"

subsection \<open>Writing an entry back as text, in the words of the specification\<close>

text \<open>
  The source has no serialiser. This definition follows the round-trip property of the
  specification: one line \<^verbatim>\<open>key: value\<close> for each value of each attribute, in the
  order of the entry, then an empty line.
\<close>

definition serialize_entry_spec :: "entry \<Rightarrow> string" where
  "serialize_entry_spec e =
     concat (map (\<lambda>(key, values).
               concat (map (\<lambda>value. key @ '': '' @ value @ ''\<newline>'') values)) e)
     @ ''\<newline>''"

subsection \<open>The invariant of the accumulator\<close>

text \<open>
  The accumulator of the parser is a dict, so its keys are distinct, and the parser only
  ever gives a key a value list that is not empty.
\<close>

definition acc_ok :: "entry \<Rightarrow> bool" where
  "acc_ok user = (distinct (keys user) \<and> [] \<notin> snd ` set user)"

text \<open>
  What the parser guarantees about an entry beyond \<open>acc_ok\<close>: a key is stripped and
  has no colon, and neither a key nor a value has a line boundary.
\<close>

definition entry_ok :: "entry \<Rightarrow> bool" where
  "entry_ok user =
     (acc_ok user \<and>
      (\<forall>k \<in> set (keys user).
         strip k = k \<and> CHR '':'' \<notin> set k \<and> (\<forall>c \<in> set k. \<not> is_linebreak c)) \<and>
      (\<forall>vs \<in> snd ` set user. \<forall>v \<in> set vs. \<forall>c \<in> set v. \<not> is_linebreak c))"

section \<open>Properties\<close>

subsection \<open>Dictionaries and results\<close>

lemma has_key_map_of: "has_key k d \<longleftrightarrow> map_of d k \<noteq> None"
  by (simp add: has_key_def keys_def map_of_eq_None_iff)

lemma username_no_cn: "map_of user ''cn'' = None \<Longrightarrow> username user = Inr ''Unknown''"
  by (simp add: username_def)

lemma username_cn: "map_of user ''cn'' = Some (v # vs) \<Longrightarrow> username user = Inr v"
  by (simp add: username_def)

lemma username_total:
  "map_of user ''cn'' \<noteq> Some [] \<Longrightarrow> \<exists>name. username user = Inr name"
  by (auto simp: username_def split: option.splits list.splits)

lemma map_of_fold_update:
  "map_of (foldl (\<lambda>d (k, v). if P k then AList.update k (g k v) d else d) d0 xs) f =
     (case map_of (rev xs) f of
        Some v \<Rightarrow> if P f then Some (g f v) else map_of d0 f
      | None \<Rightarrow> map_of d0 f)"
proof (induction xs arbitrary: d0)
  case Nil
  show ?case by simp
next
  case (Cons p xs)
  obtain k v where p: "p = (k, v)" by (cases p)
  show ?case
    unfolding p
    by (simp add: Cons.IH AList.update_conv' map_add_def split: option.splits)
qed

lemma fold_update_empty:
  "foldl (\<lambda>d (k, v). if P k then AList.update k (g k v) d else d) d0 xs = [] \<longleftrightarrow>
     d0 = [] \<and> (\<forall>k \<in> set (keys xs). \<not> P k)"
proof (induction xs arbitrary: d0)
  case Nil
  show ?case by (simp add: keys_def)
next
  case (Cons p xs)
  obtain k v where p: "p = (k, v)" by (cases p)
  show ?case
    unfolding p by (auto simp add: Cons.IH keys_def)
qed

lemma fold_update_distinct:
  "distinct (map fst d0) \<Longrightarrow>
   distinct (map fst (foldl (\<lambda>d (k, v). if P k then AList.update k (g k v) d else d) d0 xs))"
proof (induction xs arbitrary: d0)
  case Nil
  then show ?case by simp
next
  case (Cons p xs)
  obtain k v where p: "p = (k, v)" by (cases p)
  show ?case
    unfolding p using Cons.prems by (auto intro!: Cons.IH AList.distinct_update)
qed

lemma map_of_fold_lookup:
  "map_of (foldl (\<lambda>d k. case map_of user k of None \<Rightarrow> d
                         | Some v \<Rightarrow> AList.update k (g k v) d) d0 ks) f =
     (if f \<in> set ks
      then (case map_of user f of Some v \<Rightarrow> Some (g f v) | None \<Rightarrow> map_of d0 f)
      else map_of d0 f)"
proof (induction ks arbitrary: d0)
  case Nil
  show ?case by simp
next
  case (Cons k ks)
  show ?case
    by (simp add: Cons.IH AList.update_conv' split: option.splits)
qed

lemma fold_lookup_distinct:
  "distinct (map fst d0) \<Longrightarrow>
   distinct (map fst (foldl (\<lambda>d k. case map_of user k of None \<Rightarrow> d
                         | Some v \<Rightarrow> AList.update k (g k v) d) d0 ks))"
proof (induction ks arbitrary: d0)
  case Nil
  then show ?case by simp
next
  case (Cons k ks)
  show ?case
    using Cons.prems by (auto intro!: Cons.IH AList.distinct_update split: option.splits)
qed

lemma map_of_classify_fields:
  "map_of (classify_fields users ex thr user) f =
     (case map_of (rev user) f of
        Some v \<Rightarrow>
          if f \<notin> ex \<and> (f \<notin> standard_ldap_fields \<or>
                        int_lt_mul (field_count users f) (length users) thr)
          then Some (if f \<notin> standard_ldap_fields then ''Non-Standard Field''
                     else ''Rare Standard Field'',
                     (if f \<notin> standard_ldap_fields then MAGENTA else YELLOW, f), v)
          else None
      | None \<Rightarrow> None)"
  unfolding classify_fields_def by (subst map_of_fold_update) (simp split: option.splits)

lemma classify_fields_empty:
  "classify_fields users ex thr user = [] \<longleftrightarrow>
   (\<forall>f \<in> set (keys user). f \<in> ex \<or> (f \<in> standard_ldap_fields \<and> \<not> int_lt_mul (field_count users f) (length users) thr))"
  unfolding classify_fields_def
  by (subst fold_update_empty) auto

lemma map_of_add_included:
  "map_of (add_included inc user d0) f =
     (if f \<in> set inc
      then (case map_of user f of
              Some v \<Rightarrow> Some (''Included Field'', (GREEN, f), v)
            | None \<Rightarrow> map_of d0 f)
      else map_of d0 f)"
  unfolding add_included_def by (subst map_of_fold_lookup) simp

lemma map_of_include_all_data:
  "map_of (include_all_data inc_all user) f =
     (if f \<in> set inc_all
      then map_option (\<lambda>v. (''Include-All Field'', (GREEN, f), v)) (map_of user f)
      else None)"
  unfolding include_all_data_def by (subst map_of_fold_lookup) (simp split: option.splits)

lemma distinct_include_all_data: "distinct (map fst (include_all_data inc_all user))"
  unfolding include_all_data_def by (rule fold_lookup_distinct) simp

lemma distinct_classify_fields: "distinct (map fst (classify_fields users ex thr user))"
  unfolding classify_fields_def by (rule fold_update_distinct) simp

lemma distinct_add_included:
  "distinct (map fst d0) \<Longrightarrow> distinct (map fst (add_included inc user d0))"
  unfolding add_included_def by (rule fold_lookup_distinct)

subsection \<open>Rounding to 53 bits is monotone\<close>

lemma bit_length_0 [simp]: "bit_length 0 = 0"
  by (simp add: bit_length.simps)

lemma bit_length_pos: "0 < n \<Longrightarrow> bit_length n = Suc (bit_length (n div 2))"
  by (subst bit_length.simps) simp

lemma bit_length_le_iff: "bit_length n \<le> k \<longleftrightarrow> n < 2 ^ k"
proof (induction k arbitrary: n)
  case 0
  show ?case by (cases "n = 0") (simp_all add: bit_length_pos)
next
  case (Suc k)
  show ?case
  proof (cases "n = 0")
    case True
    then show ?thesis by simp
  next
    case False
    then have "bit_length n \<le> Suc k \<longleftrightarrow> bit_length (n div 2) \<le> k"
      by (simp add: bit_length_pos)
    also have "\<dots> \<longleftrightarrow> n div 2 < 2 ^ k" by (rule Suc.IH)
    also have "\<dots> \<longleftrightarrow> n < 2 ^ Suc k" by auto
    finally show ?thesis .
  qed
qed

lemma bit_length_mono: "a \<le> b \<Longrightarrow> bit_length a \<le> bit_length b"
proof -
  assume "a \<le> b"
  moreover have "b < 2 ^ bit_length b"
    using bit_length_le_iff [of b "bit_length b"] by simp
  ultimately have "a < 2 ^ bit_length b" by simp
  then show ?thesis by (simp add: bit_length_le_iff)
qed

lemma bit_length_upper: "n < 2 ^ bit_length n"
  using bit_length_le_iff [of n "bit_length n"] by simp

lemma bit_length_lower: "0 < bit_length n \<Longrightarrow> 2 ^ (bit_length n - 1) \<le> n"
  using bit_length_le_iff [of n "bit_length n - 1"] by (simp add: not_less [symmetric])

lemma bit_length_numeral [simp]:
  "bit_length (numeral (Num.Bit0 m)) = Suc (bit_length (numeral m))"
  "bit_length (numeral (Num.Bit1 m)) = Suc (bit_length (numeral m))"
  "bit_length (numeral Num.One) = Suc 0"
  "bit_length (Suc 0) = Suc 0"
  by (simp_all add: bit_length_pos)
lemma round53_small: "bit_length a \<le> 53 \<Longrightarrow> round53 a = a"
  by (simp add: round53_def)

lemma round53_cases:
  assumes "53 < bit_length a"
  shows "round53 a = (a div 2 ^ (bit_length a - 53)) * 2 ^ (bit_length a - 53) \<or>
         round53 a = (a div 2 ^ (bit_length a - 53) + 1) * 2 ^ (bit_length a - 53)"
  using assms by (simp add: round53_def Let_def)

lemma bit_length_split:
  assumes "53 < bit_length a"
  obtains s where "bit_length a = s + 53" and "bit_length a - 53 = s"
    and "(2::nat) ^ (bit_length a - 1) = 2 ^ 52 * 2 ^ s"
    and "(2::nat) ^ bit_length a = 2 ^ 53 * 2 ^ s"
proof -
  define s where "s = bit_length a - 53"
  have b: "bit_length a = s + 53" using assms by (simp add: s_def)
  have "bit_length a - 1 = 52 + s" using b by simp
  then have p1: "(2::nat) ^ (bit_length a - 1) = 2 ^ 52 * 2 ^ s"
    by (simp only: power_add)
  have "bit_length a = 53 + s" using b by simp
  then have p2: "(2::nat) ^ bit_length a = 2 ^ 53 * 2 ^ s"
    by (simp only: power_add)
  show thesis by (rule that [OF b _ p1 p2]) (simp add: s_def)
qed

lemma mantissa_bounds:
  assumes "53 < bit_length a"
  shows "2 ^ 52 \<le> a div 2 ^ (bit_length a - 53)"
    and "a div 2 ^ (bit_length a - 53) < 2 ^ 53"
proof -
  obtain s where s: "bit_length a - 53 = s"
    and p1: "(2::nat) ^ (bit_length a - 1) = 2 ^ 52 * 2 ^ s"
    and p2: "(2::nat) ^ bit_length a = 2 ^ 53 * 2 ^ s"
    using bit_length_split [OF assms] by metis
  have "2 ^ 52 * 2 ^ s \<le> a"
    using bit_length_lower [of a] assms p1 by simp
  then show "2 ^ 52 \<le> a div 2 ^ (bit_length a - 53)"
    unfolding s by (simp add: less_eq_div_iff_mult_less_eq)
  have "a < 2 ^ 53 * 2 ^ s" using bit_length_upper [of a] p2 by simp
  then show "a div 2 ^ (bit_length a - 53) < 2 ^ 53"
    unfolding s by (simp add: less_mult_imp_div_less)
qed

lemma round53_lower:
  assumes "53 < bit_length a"
  shows "2 ^ (bit_length a - 1) \<le> round53 a"
proof -
  obtain s where s: "bit_length a - 53 = s"
    and p1: "(2::nat) ^ (bit_length a - 1) = 2 ^ 52 * 2 ^ s"
    using bit_length_split [OF assms] by metis
  have "(2::nat) ^ 52 * 2 ^ s \<le> a div 2 ^ s * 2 ^ s"
    using mantissa_bounds(1) [OF assms] unfolding s by (rule mult_le_mono1)
  also have "\<dots> \<le> round53 a"
    using round53_cases [OF assms] unfolding s by auto
  finally show ?thesis unfolding p1 .
qed

lemma round53_upper: "round53 a \<le> 2 ^ bit_length a"
proof (cases "53 < bit_length a")
  case False
  then show ?thesis
    using bit_length_upper [of a] by (simp add: round53_small)
next
  case True
  obtain s where s: "bit_length a - 53 = s"
    and p2: "(2::nat) ^ bit_length a = 2 ^ 53 * 2 ^ s"
    using bit_length_split [OF True] by metis
  have "round53 a \<le> (a div 2 ^ s + 1) * 2 ^ s"
    using round53_cases [OF True] unfolding s by auto
  also have "\<dots> \<le> 2 ^ 53 * 2 ^ s"
  proof (rule mult_le_mono1)
    show "a div 2 ^ s + 1 \<le> 2 ^ 53"
      using mantissa_bounds(2) [OF True] unfolding s by simp
  qed
  finally show ?thesis unfolding p2 .
qed

lemma round53_mono_same:
  assumes le: "a \<le> b" and same: "bit_length a = bit_length b" and big: "53 < bit_length a"
  shows "round53 a \<le> round53 b"
proof -
  define s where "s = bit_length a - 53"
  define h :: nat where "h = 2 ^ (s - 1)"
  have sb: "bit_length b - 53 = s" using same by (simp add: s_def)
  have ra: "round53 a = (if h < a mod 2 ^ s \<or> (a mod 2 ^ s = h \<and> odd (a div 2 ^ s))
                         then a div 2 ^ s + 1 else a div 2 ^ s) * 2 ^ s"
    using big by (simp add: round53_def Let_def s_def h_def)
  have rb: "round53 b = (if h < b mod 2 ^ s \<or> (b mod 2 ^ s = h \<and> odd (b div 2 ^ s))
                         then b div 2 ^ s + 1 else b div 2 ^ s) * 2 ^ s"
    using big same by (simp add: round53_def Let_def sb h_def)
  have qle: "a div 2 ^ s \<le> b div 2 ^ s" using le by (rule div_le_mono)
  show ?thesis
  proof (cases "a div 2 ^ s = b div 2 ^ s")
    case True
    have "a mod 2 ^ s \<le> b mod 2 ^ s"
    proof -
      have "a = a div 2 ^ s * 2 ^ s + a mod 2 ^ s"
        by (rule div_mult_mod_eq [symmetric])
      moreover have "b = a div 2 ^ s * 2 ^ s + b mod 2 ^ s"
        unfolding True by (rule div_mult_mod_eq [symmetric])
      ultimately show ?thesis using le by linarith
    qed
    then show ?thesis unfolding ra rb True by auto
  next
    case False
    then have "a div 2 ^ s + 1 \<le> b div 2 ^ s" using qle by simp
    then have "(a div 2 ^ s + 1) * 2 ^ s \<le> b div 2 ^ s * 2 ^ s"
      by (rule mult_le_mono1)
    moreover have "round53 a \<le> (a div 2 ^ s + 1) * 2 ^ s" unfolding ra by simp
    moreover have "b div 2 ^ s * 2 ^ s \<le> round53 b" unfolding rb by simp
    ultimately show ?thesis by linarith
  qed
qed

lemma round53_mono: "a \<le> b \<Longrightarrow> round53 a \<le> round53 b"
proof -
  assume le: "a \<le> b"
  have bl: "bit_length a \<le> bit_length b" using le by (rule bit_length_mono)
  show ?thesis
  proof (cases "53 < bit_length b")
    case False
    then show ?thesis using bl le by (simp add: round53_small)
  next
    case True
    show ?thesis
    proof (cases "bit_length a = bit_length b")
      case True
      with le \<open>53 < bit_length b\<close> show ?thesis by (simp add: round53_mono_same)
    next
      case False
      then have "bit_length a \<le> bit_length b - 1" using bl by simp
      then have "(2::nat) ^ bit_length a \<le> 2 ^ (bit_length b - 1)"
        by (simp add: power_increasing)
      then show ?thesis
        using round53_upper [of a] round53_lower [OF True] by linarith
    qed
  qed
qed

lemma int_lt_mul_mono: "f \<le> g \<Longrightarrow> int_lt_mul c n f \<Longrightarrow> int_lt_mul c n g"
  unfolding int_lt_mul_def
  using round53_mono [of "round53 n * f" "round53 n * g"] by (simp add: mult_le_mono2 order.strict_trans2)

text \<open>The definitions that evaluate the classifier on a given input.\<close>

lemmas classifier_defs =
  find_non_standard_fields_def threshold_levels_def fnsf_body_def username_def has_key_def
  keys_def classify_fields_def add_included_def include_all_data_def standard_ldap_fields_def
  field_count_def int_lt_mul_def round53_def float_0_1_def float_0_25_def float_0_5_def
  float_0_75_def float_0_95_def float_0_6_def Let_def

subsection \<open>The outputs grow by appending\<close>

text \<open>
  What the body of the loop appends for an entry does not depend on the outputs so far:
  it is what the body returns on empty outputs.
\<close>

lemma fnsf_body_appends:
  "fnsf_body users ex inc ia thr (primary, additional) user =
     (case fnsf_body users ex inc ia thr ([], []) user of
        Inl e \<Rightarrow> Inl e
      | Inr (p, a) \<Rightarrow> Inr (primary @ p, additional @ a))"
  by (simp add: fnsf_body_def Let_def split: sum.splits)

lemma fnsf_loop_appends:
  "fnsf_loop users ex inc ia thr (primary, additional) us =
     (case fnsf_loop users ex inc ia thr ([], []) us of
        Inl e \<Rightarrow> Inl e
      | Inr (p, a) \<Rightarrow> Inr (primary @ p, additional @ a))"
proof (induction us arbitrary: primary additional)
  case Nil
  show ?case by simp
next
  case (Cons u us)
  show ?case
  proof (cases "fnsf_body users ex inc ia thr ([], []) u")
    case (Inl e)
    then show ?thesis by (simp add: fnsf_body_appends [of _ _ _ _ _ primary additional])
  next
    case (Inr st)
    obtain p a where st: "st = (p, a)" by (cases st)
    have step: "fnsf_body users ex inc ia thr (primary, additional) u =
                  Inr (primary @ p, additional @ a)"
      by (simp add: fnsf_body_appends [of _ _ _ _ _ primary additional] Inr st)
    show ?thesis
      by (simp add: step Inr st Cons.IH [of "primary @ p" "additional @ a"] Cons.IH [of p a]
          split: sum.splits)
  qed
qed

subsection \<open>The include gate\<close>

text \<open>
  C3. An entry that has, outside the exclude-set, no non-standard attribute and no
  standard attribute whose count is below the threshold appends nothing to the primary
  output, whatever the include-set is: the body of the loop returns the primary list
  it was given.
\<close>

theorem include_alone_never_triggers:
  assumes quiet: "\<forall>f \<in> set (keys user). f \<in> exclude_fields \<or>
             (f \<in> standard_ldap_fields \<and>
              \<not> int_lt_mul (field_count users f) (length users) thr)"
    and cn: "map_of user ''cn'' \<noteq> Some []"
  shows "\<exists>additional'. fnsf_body users exclude_fields include_fields include_all_fields thr
            (primary, additional) user = Inr (primary, additional')"
proof -
  obtain name where name: "username user = Inr name"
    using username_total [OF cn] by blast
  have empty: "classify_fields users exclude_fields thr user = []"
    unfolding classify_fields_empty by (rule quiet)
  show ?thesis
    by (simp add: fnsf_body_def name empty Let_def)
qed

theorem include_alone_never_triggers_witness:
  "map_of [(''cn'', [''alice'']), (''mail'', [''a@x.com''])] ''cn'' \<noteq> Some [] \<and>
   has_key ''mail'' [(''cn'', [''alice'']), (''mail'', [''a@x.com''])] \<and>
   fnsf_body [[(''cn'', [''alice'']), (''mail'', [''a@x.com''])]] {} [''mail''] [] float_0_25
     ([], []) [(''cn'', [''alice'']), (''mail'', [''a@x.com''])] = Inr ([], [])"
proof -
  let ?u = "[(''cn'', [''alice'']), (''mail'', [''a@x.com''])]"
  have h1: "\<forall>f \<in> set (keys ?u). f \<in> {} \<or>
             (f \<in> standard_ldap_fields \<and>
              \<not> int_lt_mul (field_count [?u] f) (length [?u]) float_0_25)"
    by (simp add: keys_def standard_ldap_fields_def field_count_def int_lt_mul_def
        round53_def float_0_25_def Let_def)
  have h2: "map_of ?u ''cn'' \<noteq> Some []" by simp
  from include_alone_never_triggers [OF h1 h2, of "[''mail'']" "[]" "[]" "[]"]
  obtain a where "fnsf_body [?u] {} [''mail''] [] float_0_25 ([], []) ?u = Inr ([], a)"
    by blast
  moreover have "snd (projr (fnsf_body [?u] {} [''mail''] [] float_0_25 ([], []) ?u)) = []"
    by (simp add: fnsf_body_def username_def has_key_def keys_def Let_def)
  ultimately show ?thesis by (simp add: has_key_def keys_def)
qed

subsection \<open>An entry named \<open>Unknown\<close>\<close>

text \<open>
  C10. An entry whose \<open>cn\<close> has the first value \<open>Unknown\<close> gets the display name of an
  entry with no \<open>cn\<close>. The body of the loop of \<open>list_users\<close> prints nothing for it and
  does not count it; the body of the loop of \<open>find_non_standard_fields\<close> leaves both
  outputs as they were when the entry has no \<open>description\<close> either, whatever its other
  attributes are.
\<close>

theorem cn_unknown_is_skipped:
  assumes cn: "map_of user ''cn'' = Some (''Unknown'' # vs)"
    and no_cn: "map_of unnamed ''cn'' = None"
  shows "username user = username unnamed \<and>
         list_users_body users counts (out, displayed_users) user = Inr (out, displayed_users) \<and>
         (\<not> has_key ''description'' user \<longrightarrow>
            fnsf_body users exclude_fields include_fields include_all_fields thr
              (primary, additional) user = Inr (primary, additional))"
proof -
  have name: "username user = Inr ''Unknown''"
    using cn by (rule username_cn)
  have "username unnamed = Inr ''Unknown''"
    using no_cn by (rule username_no_cn)
  with name show ?thesis
    by (simp add: list_users_body_def fnsf_body_def)
qed

theorem cn_unknown_is_skipped_witness:
  "username [(''cn'', [''Unknown'']), (''extensionAttribute1'', [''x''])] =
     username [(''extensionAttribute1'', [''x''])] \<and>
   list_users_body [[(''cn'', [''Unknown'']), (''extensionAttribute1'', [''x''])]] (\<lambda>f. 1)
     ([], 0) [(''cn'', [''Unknown'']), (''extensionAttribute1'', [''x''])] = Inr ([], 0) \<and>
   fnsf_body [[(''cn'', [''Unknown'']), (''extensionAttribute1'', [''x''])]] {} []
     [''extensionAttribute1''] float_0_25 ([], [])
     [(''cn'', [''Unknown'']), (''extensionAttribute1'', [''x''])] = Inr ([], [])"
proof -
  let ?u = "[(''cn'', [''Unknown'']), (''extensionAttribute1'', [''x''])]"
  have h1: "map_of ?u ''cn'' = Some (''Unknown'' # [])" by simp
  have h2: "map_of [(''extensionAttribute1'', [''x''])] ''cn'' = None" by simp
  have h3: "\<not> has_key ''description'' ?u" by (simp add: has_key_def keys_def)
  show ?thesis
    using cn_unknown_is_skipped [OF h1 h2, of "[?u]" "\<lambda>f. 1" "[]" 0 "{}" "[]"
        "[''extensionAttribute1'']" float_0_25 "[]" "[]"] h3
    by blast
qed

subsection \<open>The include-all output\<close>

text \<open>
  C1. The source says what the claim says: the comment of line 116 is
  \<^verbatim>\<open>Keep track of all users with the fields specified in --include-all\<close>, the help of
  \<^verbatim>\<open>--include-all\<close> is \<^verbatim>\<open>Show all users that have specified fields, in addition to the regular results\<close>,
  and the loop that prints the include-all output does not leave out the name
  \<open>Unknown\<close>, as the loop that prints the primary output does. The code does not do it:
  the test of line 121 is followed by \<^verbatim>\<open>continue\<close>, which leaves the body before
  the include-all part of lines 143 to 148. Here the one entry has no \<open>cn\<close> and no
  \<open>description\<close>, and it has the include-all attribute \<open>extensionAttribute1\<close>; the
  include-all output is empty, where the claim has the pair of \<open>Unknown\<close> and the result
  of that attribute.
\<close>

theorem include_all_drops_unnamed_entry:
  "username [(''extensionAttribute1'', [''x''])] = Inr ''Unknown'' \<and>
   \<not> has_key ''description'' [(''extensionAttribute1'', [''x''])] \<and>
   has_key ''extensionAttribute1'' [(''extensionAttribute1'', [''x''])] \<and>
   find_non_standard_fields [[(''extensionAttribute1'', [''x''])]] {} []
     [''extensionAttribute1''] 2 = Inr ([], [])"
  by (simp add: find_non_standard_fields_def threshold_levels_def fnsf_body_def username_def
      has_key_def keys_def)

text \<open>
  What the body of the loop does with the include-all part. For an entry that the test
  of line 121 does not skip (its display name is not \<open>Unknown\<close>, or it has a
  \<open>description\<close>) and that has an attribute of the include-all-set, the body appends the
  pair of the display name and a result to the include-all output, whatever it does to
  the primary output; the result maps exactly the include-all attributes that the entry
  has, each to the label \<open>Include-All Field\<close> and the values of the entry. An entry
  that the test skips is appended to neither output.
\<close>

lemma include_all_unless_skipped:
  assumes name: "username user = Inr name"
  shows "if name = ''Unknown'' \<and> \<not> has_key ''description'' user
         then fnsf_body users exclude_fields include_fields include_all_fields thr
                (primary, additional) user = Inr (primary, additional)
         else (list_ex (\<lambda>f. has_key f user) include_all_fields \<longrightarrow>
                (\<exists>primary'.
                   fnsf_body users exclude_fields include_fields include_all_fields thr
                     (primary, additional) user =
                   Inr (primary', additional @ [(name, include_all_data include_all_fields user)])) \<and>
                (\<forall>f. map_of (include_all_data include_all_fields user) f =
                        (if f \<in> set include_all_fields
                         then map_option (\<lambda>v. (''Include-All Field'', (GREEN, f), v)) (map_of user f)
                         else None)))"
proof (cases "name = ''Unknown'' \<and> \<not> has_key ''description'' user")
  case True
  then show ?thesis by (simp add: fnsf_body_def name)
next
  case False
  have "list_ex (\<lambda>f. has_key f user) include_all_fields \<Longrightarrow> include_all_fields \<noteq> []"
    by auto
  then show ?thesis
    using False by (auto simp add: fnsf_body_def name Let_def map_of_include_all_data)
qed

lemma include_all_unless_skipped_example:
  "username [(''description'', [''d'']), (''extensionAttribute1'', [''x''])] = Inr ''Unknown'' \<and>
   fnsf_body [[(''description'', [''d'']), (''extensionAttribute1'', [''x''])]] {''extensionAttribute1''} []
     [''extensionAttribute1'', ''mail''] float_0_25 ([], [])
     [(''description'', [''d'']), (''extensionAttribute1'', [''x''])] =
   Inr ([], [(''Unknown'', [(''extensionAttribute1'', ''Include-All Field'',
                 (GREEN, ''extensionAttribute1''), [''x''])])])"
proof -
  let ?u = "[(''description'', [''d'']), (''extensionAttribute1'', [''x''])]"
  have h: "username ?u = Inr ''Unknown''" by (simp add: username_def)
  have k: "has_key ''description'' ?u" by (simp add: has_key_def keys_def)
  have l: "list_ex (\<lambda>f. has_key f ?u) [''extensionAttribute1'', ''mail'']"
    by (simp add: has_key_def keys_def)
  have d: "include_all_data [''extensionAttribute1'', ''mail''] ?u =
      [(''extensionAttribute1'', ''Include-All Field'', (GREEN, ''extensionAttribute1''), [''x''])]"
    by (simp add: include_all_data_def)
  from include_all_unless_skipped [OF h, of "[?u]" "{''extensionAttribute1''}" "[]"
      "[''extensionAttribute1'', ''mail'']" float_0_25 "[]" "[]"] k l
  obtain p where "fnsf_body [?u] {''extensionAttribute1''} [] [''extensionAttribute1'', ''mail'']
      float_0_25 ([], []) ?u = Inr (p, [] @ [(''Unknown'', include_all_data [''extensionAttribute1'', ''mail''] ?u)])"
    by auto
  moreover have "fst (projr (fnsf_body [?u] {''extensionAttribute1''} [] [''extensionAttribute1'', ''mail'']
      float_0_25 ([], []) ?u)) = []"
    by (simp add: fnsf_body_def username_def has_key_def keys_def Let_def classify_fields_def
        standard_ldap_fields_def field_count_def int_lt_mul_def round53_def float_0_25_def)
  ultimately show ?thesis using h d by simp
qed

subsection \<open>Exclusion and inclusion\<close>




subsection \<open>The threshold level\<close>

lemma labelled_iff_map_of:
  assumes "distinct (map fst d)"
  shows "f \<in> set (map fst (filter (\<lambda>(field, l, c, v). l = label) d)) \<longleftrightarrow>
         (\<exists>c v. map_of d f = Some (label, c, v))"
proof
  assume "f \<in> set (map fst (filter (\<lambda>(field, l, c, v). l = label) d))"
  then obtain c v where "(f, label, c, v) \<in> set d" by auto
  then have "map_of d f = Some (label, c, v)"
    using assms by simp
  then show "\<exists>c v. map_of d f = Some (label, c, v)" by blast
next
  assume "\<exists>c v. map_of d f = Some (label, c, v)"
  then obtain c v where "map_of d f = Some (label, c, v)" by blast
  then have "(f, label, c, v) \<in> set d" by (rule map_of_SomeD)
  then show "f \<in> set (map fst (filter (\<lambda>(field, l, c, v). l = label) d))"
    by force
qed

lemma map_of_rev_Some: "map_of (rev xs) k = Some v \<Longrightarrow> map_of xs k \<noteq> None"
proof -
  assume "map_of (rev xs) k = Some v"
  then have "(k, v) \<in> set (rev xs)" by (rule map_of_SomeD)
  then have "k \<in> fst ` set xs" by force
  then show ?thesis by (simp add: map_of_eq_None_iff)
qed

lemma threshold_levels_increase:
  assumes "level \<in> {1, 2, 3, 4}"
    and "threshold_levels level = Some t" and "threshold_levels (level + 1) = Some t'"
  shows "t \<le> t'"
  using assms
  by (auto simp add: threshold_levels_def float_0_1_def float_0_25_def float_0_5_def
      float_0_75_def float_0_95_def)

lemma rare_in_primary_data:
  "(\<exists>c v. map_of (add_included inc user (classify_fields users ex thr user)) f =
             Some (''Rare Standard Field'', c, v)) \<longleftrightarrow>
   f \<in> set (keys user) \<and> f \<notin> set inc \<and> f \<notin> ex \<and> f \<in> standard_ldap_fields \<and>
   int_lt_mul (field_count users f) (length users) thr"
proof (cases "map_of (rev user) f")
  case None
  then have "f \<notin> set (keys user)"
    by (simp add: map_of_eq_None_iff keys_def)
  moreover from this have "map_of user f = None"
    by (simp add: map_of_eq_None_iff keys_def)
  ultimately show ?thesis
    using None by (simp add: map_of_add_included map_of_classify_fields)
next
  case (Some v)
  then obtain w where w: "map_of user f = Some w"
    using map_of_rev_Some by fastforce
  then have "f \<in> set (keys user)"
    by (metis has_key_def has_key_map_of option.distinct(1))
  then show ?thesis
    using Some w by (auto simp add: map_of_add_included map_of_classify_fields)
qed

text \<open>
  C4. For the levels 1 to 4, the fields that the body of the loop labels
  \<open>Rare Standard Field\<close> for an entry at a level are among those it labels so at the next
  level, the collection and the three sets being the same. The body is run on empty
  outputs, so that its primary output is what it appends for this entry
  (\<open>fnsf_body_appends\<close>). The thresholds are the doubles of \<open>threshold_levels\<close>
  and the product is the rounded one; \<open>threshold_levels_are_fractions\<close> relates them
  to the fractions 0.10, 0.25, 0.50, 0.75 and 0.95.
\<close>

theorem rare_standard_monotone:
  assumes level: "level \<in> {1, 2, 3, 4}"
    and t: "threshold_levels level = Some t"
    and t': "threshold_levels (level + 1) = Some t'"
    and body: "fnsf_body users exclude_fields include_fields include_all_fields t
                 ([], []) user = Inr (primary, additional)"
    and body': "fnsf_body users exclude_fields include_fields include_all_fields t'
                 ([], []) user = Inr (primary', additional')"
  shows "set (fields_labelled ''Rare Standard Field'' primary)
           \<subseteq> set (fields_labelled ''Rare Standard Field'' primary')"
proof
  fix f
  assume f: "f \<in> set (fields_labelled ''Rare Standard Field'' primary)"
  let ?cf = "classify_fields users exclude_fields t user"
  let ?cf' = "classify_fields users exclude_fields t' user"
  have le: "t \<le> t'" using level t t' by (rule threshold_levels_increase)
  obtain name where name: "username user = Inr name"
    using body by (auto simp add: fnsf_body_def split: sum.splits)
  have skip: "\<not> (name = ''Unknown'' \<and> \<not> has_key ''description'' user)"
  proof
    assume "name = ''Unknown'' \<and> \<not> has_key ''description'' user"
    then have "primary = []"
      using body name by (simp add: fnsf_body_def)
    then show False using f by (simp add: fields_labelled_def)
  qed
  have primary: "primary = (if ?cf \<noteq> [] then [(name, add_included include_fields user ?cf)] else [])"
    using body name skip by (auto simp add: fnsf_body_def Let_def)
  have primary': "primary' = (if ?cf' \<noteq> [] then [(name, add_included include_fields user ?cf')] else [])"
    using body' name skip by (auto simp add: fnsf_body_def Let_def)
  have dist: "distinct (map fst (add_included include_fields user ?cf))"
    by (rule distinct_add_included) (rule distinct_classify_fields)
  have dist': "distinct (map fst (add_included include_fields user ?cf'))"
    by (rule distinct_add_included) (rule distinct_classify_fields)
  have "?cf \<noteq> []" using f primary by (auto simp add: fields_labelled_def)
  then have "f \<in> set (map fst (filter (\<lambda>(field, l, c, v). l = ''Rare Standard Field'')
                 (add_included include_fields user ?cf)))"
    using f primary by (simp add: fields_labelled_def)
  then have "\<exists>c v. map_of (add_included include_fields user ?cf) f =
                     Some (''Rare Standard Field'', c, v)"
    using labelled_iff_map_of [OF dist] by blast
  then have rare: "f \<in> set (keys user) \<and> f \<notin> set include_fields \<and> f \<notin> exclude_fields \<and>
                   f \<in> standard_ldap_fields \<and>
                   int_lt_mul (field_count users f) (length users) t"
    unfolding rare_in_primary_data .
  then have lt': "int_lt_mul (field_count users f) (length users) t'"
    using int_lt_mul_mono [OF le] by blast
  have ex': "\<exists>c v. map_of (add_included include_fields user ?cf') f =
                     Some (''Rare Standard Field'', c, v)"
    unfolding rare_in_primary_data using rare lt' by blast
  then have in': "f \<in> set (map fst (filter (\<lambda>(field, l, c, v). l = ''Rare Standard Field'')
                 (add_included include_fields user ?cf')))"
    using labelled_iff_map_of [OF dist'] by blast
  have "?cf' \<noteq> []"
    unfolding classify_fields_empty using rare lt' by blast
  then show "f \<in> set (fields_labelled ''Rare Standard Field'' primary')"
    using in' primary' by (simp add: fields_labelled_def)
qed

theorem rare_standard_monotone_witness:
  "threshold_levels 3 = Some float_0_5 \<and> threshold_levels (3 + 1) = Some float_0_75 \<and>
   fnsf_body
     [[(''cn'', [''a'']), (''mail'', [''a@x.com'']), (''title'', [''t''])],
      [(''cn'', [''b'']), (''title'', [''t''])], [(''cn'', [''c''])], [(''cn'', [''d''])]]
     {} [] [] float_0_5 ([], [])
     [(''cn'', [''a'']), (''mail'', [''a@x.com'']), (''title'', [''t''])] =
   Inr ([(''a'', [(''mail'', ''Rare Standard Field'', (YELLOW, ''mail''), [''a@x.com''])])], []) \<and>
   fnsf_body
     [[(''cn'', [''a'']), (''mail'', [''a@x.com'']), (''title'', [''t''])],
      [(''cn'', [''b'']), (''title'', [''t''])], [(''cn'', [''c''])], [(''cn'', [''d''])]]
     {} [] [] float_0_75 ([], [])
     [(''cn'', [''a'']), (''mail'', [''a@x.com'']), (''title'', [''t''])] =
   Inr ([(''a'', [(''mail'', ''Rare Standard Field'', (YELLOW, ''mail''), [''a@x.com'']),
                  (''title'', ''Rare Standard Field'', (YELLOW, ''title''), [''t''])])], []) \<and>
   set (fields_labelled ''Rare Standard Field''
          [(''a'', [(''mail'', ''Rare Standard Field'', (YELLOW, ''mail''), [''a@x.com''])])])
     \<subseteq> set (fields_labelled ''Rare Standard Field''
          [(''a'', [(''mail'', ''Rare Standard Field'', (YELLOW, ''mail''), [''a@x.com'']),
                    (''title'', ''Rare Standard Field'', (YELLOW, ''title''), [''t''])])])"
proof -
  let ?u = "[(''cn'', [''a'']), (''mail'', [''a@x.com'']), (''title'', [''t''])]"
  define users where "users = [?u, [(''cn'', [''b'']), (''title'', [''t''])],
    [(''cn'', [''c''])], [(''cn'', [''d''])]]"
  have h1: "(3::int) \<in> {1, 2, 3, 4}" by simp
  have h2: "threshold_levels 3 = Some float_0_5" by (simp add: threshold_levels_def)
  have h3: "threshold_levels (3 + 1) = Some float_0_75" by (simp add: threshold_levels_def)
  have c: "field_count users ''cn'' = 4" "field_count users ''mail'' = 1"
    "field_count users ''title'' = 2" "length users = 4"
    by (simp_all add: users_def field_count_def keys_def)
  have lt: "\<not> int_lt_mul (field_count users ''cn'') (length users) float_0_5"
    "int_lt_mul (field_count users ''mail'') (length users) float_0_5"
    "\<not> int_lt_mul (field_count users ''title'') (length users) float_0_5"
    "\<not> int_lt_mul (field_count users ''cn'') (length users) float_0_75"
    "int_lt_mul (field_count users ''mail'') (length users) float_0_75"
    "int_lt_mul (field_count users ''title'') (length users) float_0_75"
    unfolding c
    by (simp_all add: int_lt_mul_def round53_def float_0_5_def float_0_75_def Let_def)
  have std: "''cn'' \<in> standard_ldap_fields" "''mail'' \<in> standard_ldap_fields"
    "''title'' \<in> standard_ldap_fields"
    by (simp_all add: standard_ldap_fields_def)
  have h4: "fnsf_body users {} [] [] float_0_5 ([], []) ?u =
      Inr ([(''a'', [(''mail'', ''Rare Standard Field'', (YELLOW, ''mail''), [''a@x.com''])])], [])"
    by (simp add: fnsf_body_def username_def classify_fields_def add_included_def lt std)
  have h5: "fnsf_body users {} [] [] float_0_75 ([], []) ?u =
      Inr ([(''a'', [(''mail'', ''Rare Standard Field'', (YELLOW, ''mail''), [''a@x.com'']),
                     (''title'', ''Rare Standard Field'', (YELLOW, ''title''), [''t''])])], [])"
    by (simp add: fnsf_body_def username_def classify_fields_def add_included_def lt std)
  show ?thesis
    using h2 h3 h4 h5 rare_standard_monotone [OF h1 h2 h3 h4 h5]
    unfolding users_def by (intro conjI)
qed

subsection \<open>Validation of the field names\<close>

lemma all_fields_in_data_iff:
  "f \<in> all_fields_in_data users \<longleftrightarrow> (\<exists>u \<in> set users. has_key f u)"
  by (auto simp add: all_fields_in_data_def has_key_def)

lemma classify_fields_absent_exclude:
  assumes "\<not> has_key x user"
  shows "classify_fields users (insert x ex) thr user = classify_fields users ex thr user"
  unfolding classify_fields_def
proof (rule foldl_cong)
  fix d p
  assume "p \<in> set user"
  then have "fst p \<noteq> x" using assms by (auto simp add: has_key_def keys_def)
  then show "(case p of (field, value) \<Rightarrow>
           if field \<notin> insert x ex \<and> (field \<notin> standard_ldap_fields \<or>
                int_lt_mul (field_count users field) (length users) thr)
           then AList.update field
                  (if field \<notin> standard_ldap_fields then ''Non-Standard Field''
                   else ''Rare Standard Field'',
                   (if field \<notin> standard_ldap_fields then MAGENTA else YELLOW, field), value) d
           else d) =
        (case p of (field, value) \<Rightarrow>
           if field \<notin> ex \<and> (field \<notin> standard_ldap_fields \<or>
                int_lt_mul (field_count users field) (length users) thr)
           then AList.update field
                  (if field \<notin> standard_ldap_fields then ''Non-Standard Field''
                   else ''Rare Standard Field'',
                   (if field \<notin> standard_ldap_fields then MAGENTA else YELLOW, field), value) d
           else d)"
    by (cases p) auto
qed simp_all

lemma fnsf_body_absent_exclude:
  assumes "\<not> has_key x user"
  shows "fnsf_body users (insert x ex) inc ia thr st user = fnsf_body users ex inc ia thr st user"
  unfolding fnsf_body_def classify_fields_absent_exclude [OF assms] by (rule refl)

lemma fnsf_loop_absent_exclude:
  assumes "\<forall>u \<in> set us. \<not> has_key x u"
  shows "fnsf_loop users (insert x ex) inc ia thr st us = fnsf_loop users ex inc ia thr st us"
  using assms
proof (induction us arbitrary: st)
  case Nil
  show ?case by simp
next
  case (Cons u us)
  then show ?case
    by (simp add: fnsf_body_absent_exclude split: sum.splits)
qed

lemma find_absent_exclude:
  assumes "\<not> (\<exists>u \<in> set users. has_key x u)"
  shows "find_non_standard_fields users (insert x ex) inc ia level =
         find_non_standard_fields users ex inc ia level"
  using assms
  by (simp add: find_non_standard_fields_def fnsf_loop_absent_exclude split: option.splits)

lemma fnsf_body_total:
  assumes "map_of user ''cn'' \<noteq> Some []"
  shows "\<exists>st'. fnsf_body users ex inc ia thr st user = Inr st'"
proof -
  obtain name where "username user = Inr name"
    using username_total [OF assms] by blast
  then show ?thesis
    by (cases st) (simp add: fnsf_body_def Let_def)
qed

lemma fnsf_loop_total:
  assumes "\<forall>u \<in> set us. map_of u ''cn'' \<noteq> Some []"
  shows "\<exists>st'. fnsf_loop users ex inc ia thr st us = Inr st'"
  using assms
proof (induction us arbitrary: st)
  case Nil
  show ?case by simp
next
  case (Cons u us)
  then obtain st1 where "fnsf_body users ex inc ia thr st u = Inr st1"
    using fnsf_body_total [of u users ex inc ia thr st] by auto
  then show ?case using Cons by simp
qed

lemma find_total:
  assumes "level \<in> {1, 2, 3, 4, 5}" and "\<forall>u \<in> set users. map_of u ''cn'' \<noteq> Some []"
  shows "\<exists>r. find_non_standard_fields users ex inc ia level = Inr r"
proof -
  obtain thr where "threshold_levels level = Some thr"
    using assms(1) by (auto simp add: threshold_levels_def)
  then show ?thesis
    using fnsf_loop_total [OF assms(2)] by (simp add: find_non_standard_fields_def)
qed

text \<open>
  C9. Validation keeps, in their order, the names of the include-set and of the
  include-all-set that are an attribute of some entry of the collection, and drops the
  others, each with a warning. It cannot fail, and classification then runs on the kept
  names: with a level from 1 to 5 and entries whose \<open>cn\<close>, when they have one, has a
  value, the run returns its two outputs. The exclude-set goes to the classification as
  it was given, and a name in it that is an attribute of no entry changes nothing.
\<close>

theorem validation_drops_absent_names:
  assumes run: "validate_and_classify users exclude_fields include_fields include_all_fields level =
                  (warned, (kept, kept_all), outcome)"
  shows "kept = filter (\<lambda>f. \<exists>u \<in> set users. has_key f u) include_fields \<and>
         kept_all = filter (\<lambda>f. \<exists>u \<in> set users. has_key f u) include_all_fields \<and>
         warned = filter (\<lambda>f. \<not> (\<exists>u \<in> set users. has_key f u)) include_fields @
                  filter (\<lambda>f. \<not> (\<exists>u \<in> set users. has_key f u)) include_all_fields \<and>
         outcome = find_non_standard_fields users exclude_fields kept kept_all level \<and>
         (\<forall>x. \<not> (\<exists>u \<in> set users. has_key x u) \<longrightarrow>
              find_non_standard_fields users (insert x exclude_fields) kept kept_all level =
              outcome) \<and>
         (level \<in> {1, 2, 3, 4, 5} \<and> (\<forall>u \<in> set users. map_of u ''cn'' \<noteq> Some []) \<longrightarrow>
              (\<exists>primary additional. outcome = Inr (primary, additional)))"
proof -
  have k: "kept = filter (\<lambda>f. \<exists>u \<in> set users. has_key f u) include_fields"
    and ka: "kept_all = filter (\<lambda>f. \<exists>u \<in> set users. has_key f u) include_all_fields"
    and w: "warned = filter (\<lambda>f. \<not> (\<exists>u \<in> set users. has_key f u)) include_fields @
                  filter (\<lambda>f. \<not> (\<exists>u \<in> set users. has_key f u)) include_all_fields"
    and out: "outcome = find_non_standard_fields users exclude_fields kept kept_all level"
    using run
    by (auto simp add: validate_and_classify_def validate_fields_def all_fields_in_data_iff)
  have absent: "\<forall>x. \<not> (\<exists>u \<in> set users. has_key x u) \<longrightarrow>
              find_non_standard_fields users (insert x exclude_fields) kept kept_all level =
              outcome"
    unfolding out using find_absent_exclude by blast
  have total: "level \<in> {1, 2, 3, 4, 5} \<and> (\<forall>u \<in> set users. map_of u ''cn'' \<noteq> Some []) \<longrightarrow>
              (\<exists>primary additional. outcome = Inr (primary, additional))"
    unfolding out using find_total by fastforce
  show ?thesis
    using k ka w out absent total by (intro conjI)
qed

theorem validation_drops_absent_names_witness:
  "validate_and_classify [[(''cn'', [''alice'']), (''foo'', [''1'']), (''bar'', [''2''])]]
     {''zzz''} [''foo'', ''zip''] [''zap'', ''bar''] 2 =
   ([''zip'', ''zap''], ([''foo''], [''bar'']),
    Inr ([(''alice'', [(''foo'', ''Included Field'', (GREEN, ''foo''), [''1'']),
                       (''bar'', ''Non-Standard Field'', (MAGENTA, ''bar''), [''2''])])],
         [(''alice'', [(''bar'', ''Include-All Field'', (GREEN, ''bar''), [''2''])])])) \<and>
   find_non_standard_fields [[(''cn'', [''alice'']), (''foo'', [''1'']), (''bar'', [''2''])]]
     (insert ''nope'' {''zzz''}) [''foo''] [''bar''] 2 =
   Inr ([(''alice'', [(''foo'', ''Included Field'', (GREEN, ''foo''), [''1'']),
                      (''bar'', ''Non-Standard Field'', (MAGENTA, ''bar''), [''2''])])],
        [(''alice'', [(''bar'', ''Include-All Field'', (GREEN, ''bar''), [''2''])])])"
proof -
  let ?users = "[[(''cn'', [''alice'']), (''foo'', [''1'']), (''bar'', [''2''])]]"
  let ?out = "Inr ([(''alice'', [(''foo'', ''Included Field'', (GREEN, ''foo''), [''1'']),
                      (''bar'', ''Non-Standard Field'', (MAGENTA, ''bar''), [''2''])])],
        [(''alice'', [(''bar'', ''Include-All Field'', (GREEN, ''bar''), [''2''])])])"
  have run: "validate_and_classify ?users {''zzz''} [''foo'', ''zip''] [''zap'', ''bar''] 2 =
      ([''zip'', ''zap''], ([''foo''], [''bar'']), ?out)"
    by (simp add: validate_and_classify_def validate_fields_def all_fields_in_data_def
        classifier_defs)
  have absent: "\<not> (\<exists>u \<in> set ?users. has_key ''nope'' u)"
    by (simp add: has_key_def keys_def)
  from validation_drops_absent_names [OF run] absent
  have "find_non_standard_fields ?users (insert ''nope'' {''zzz''}) [''foo''] [''bar''] 2 = ?out"
    by blast
  with run show ?thesis by (intro conjI)
qed

subsection \<open>The doubles and the fractions\<close>

lemma round53_exact:
  assumes "m < 2 ^ 53"
  shows "round53 (m * 2 ^ k) = m * 2 ^ k"
proof (cases "53 < bit_length (m * 2 ^ k)")
  case False
  then show ?thesis by (simp add: round53_small)
next
  case True
  define s where "s = bit_length (m * 2 ^ k) - 53"
  have "m * 2 ^ k < 2 ^ (53 + k)"
    using assms by (simp add: power_add)
  then have "bit_length (m * 2 ^ k) \<le> 53 + k"
    by (simp only: bit_length_le_iff)
  then have sk: "s \<le> k" and s: "0 < s" using True by (simp_all add: s_def)
  have "(2::nat) ^ s dvd 2 ^ k" using sk by (rule le_imp_power_dvd)
  then have dvd: "2 ^ s dvd m * 2 ^ k" by (rule dvd_mult)
  then have r: "(m * 2 ^ k) mod 2 ^ s = 0" by (simp add: mod_eq_0_iff_dvd)
  have h: "(0::nat) < 2 ^ (s - 1)" by simp
  have "round53 (m * 2 ^ k) = (m * 2 ^ k) div 2 ^ s * 2 ^ s"
    using True h unfolding round53_def Let_def s_def [symmetric] r
    by simp
  also have "\<dots> = m * 2 ^ k" using dvd by (rule dvd_div_mult_self)
  finally show ?thesis .
qed

lemma round53_error:
  shows "round53 x \<le> x + x div 2 ^ 53" and "x \<le> round53 x + x div 2 ^ 53"
proof -
  have "round53 x \<le> x + x div 2 ^ 53 \<and> x \<le> round53 x + x div 2 ^ 53"
  proof (cases "53 < bit_length x")
    case False
    then show ?thesis by (simp add: round53_small)
  next
    case True
    obtain s where s: "bit_length x - 53 = s" and "bit_length x = s + 53"
      and p1: "(2::nat) ^ (bit_length x - 1) = 2 ^ 52 * 2 ^ s"
      using bit_length_split [OF True] by metis
    then have s0: "0 < s" using True by simp
    define h :: nat where "h = 2 ^ (s - 1)"
    define q where "q = x div 2 ^ s"
    define r where "r = x mod 2 ^ s"
    have x: "x = q * 2 ^ s + r"
      unfolding q_def r_def by (rule div_mult_mod_eq [symmetric])
    have hh: "2 ^ s = 2 * h" using s0 by (simp add: h_def flip: power_Suc)
    have "2 ^ 52 * 2 ^ s \<le> x" using bit_length_lower [of x] True p1 by simp
    then have "2 ^ 52 * (2 * h) \<le> x" by (simp only: hh)
    then have "2 ^ 53 * h \<le> x" by simp
    then have hx: "h \<le> x div 2 ^ 53"
      by (simp add: less_eq_div_iff_mult_less_eq mult.commute)
    have "r < 2 ^ s" unfolding r_def by simp
    then have r2: "r < 2 * h" by (simp only: hh)
    have rd: "round53 x = (if h < r \<or> (r = h \<and> odd q) then q + 1 else q) * 2 ^ s"
      using True by (simp add: round53_def Let_def s h_def q_def r_def)
    show ?thesis
    proof (cases "h < r \<or> (r = h \<and> odd q)")
      case True
      then have "round53 x = q * 2 ^ s + 2 * h" by (simp add: rd hh)
      moreover have "h \<le> r" using True by auto
      ultimately show ?thesis using x r2 hx by linarith
    next
      case False
      then have "round53 x = q * 2 ^ s" by (simp add: rd)
      moreover have "r \<le> h" using False by auto
      ultimately show ?thesis using x hx by linarith
    qed
  qed
  then show "round53 x \<le> x + x div 2 ^ 53" and "x \<le> round53 x + x div 2 ^ 53"
    by simp_all
qed

text \<open>
  The doubles of the source against the decimal fractions they are written as: three of
  them are the fraction, \<open>0.95\<close> and \<open>0.6\<close> are below it and \<open>0.1\<close> is above it,
  each by less than half a unit in its last place, and each has at most 53 bits.
\<close>

lemma float_literals:
  "4 * float_0_25 = 2 ^ 55" "2 * float_0_5 = 2 ^ 55" "4 * float_0_75 = 3 * 2 ^ 55"
  "10 * float_0_1 = 2 ^ 55 + 2" "20 * float_0_95 + 32 = 19 * 2 ^ 55"
  "5 * float_0_6 + 4 = 3 * 2 ^ 55"
  by (simp_all add: float_0_1_def float_0_25_def float_0_5_def float_0_75_def float_0_95_def
      float_0_6_def)

lemma float_literals_representable:
  "round53 float_0_1 = float_0_1" "round53 float_0_25 = float_0_25"
  "round53 float_0_5 = float_0_5" "round53 float_0_75 = float_0_75"
  "round53 float_0_95 = float_0_95" "round53 float_0_6 = float_0_6"
  by (simp_all add: round53_def Let_def float_0_1_def float_0_25_def float_0_5_def
      float_0_75_def float_0_95_def float_0_6_def)

text \<open>
  A double \<open>f\<close> that is the fraction \<open>num / den\<close> or just below it: while the number
  of entries is small enough for the rounding error to stay below one entry, the
  comparison with the rounded product is the comparison with the fraction.
\<close>

lemma int_lt_mul_fraction_below:
  assumes f: "den * f + e = num * 2 ^ 55"
    and frac: "num \<le> den" "0 < den"
    and small: "(4 * den + e) * n < 2 ^ 55"
  shows "int_lt_mul c n f \<longleftrightarrow> den * c < num * n"
proof -
  define x where "x = n * f"
  define P :: nat where "P = 2 ^ 55"
  have fP: "den * f + e = num * P" using f by (simp only: P_def)
  have smallP: "(4 * den + e) * n < P" using small by (simp only: P_def)
  have "4 \<le> 4 * den + e" using frac(2) by simp
  then have "4 * n \<le> (4 * den + e) * n" by (rule mult_le_mono1)
  then have n4: "4 * n < P" using smallP by (rule le_less_trans)
  have n53: "n < 2 ^ 53" using n4 by (simp add: P_def)
  have rn: "round53 n = n"
  proof (rule round53_small)
    show "bit_length n \<le> 53" using n53 by (simp only: bit_length_le_iff)
  qed
  have lt: "int_lt_mul c n f \<longleftrightarrow> c * P < round53 x"
    by (simp add: int_lt_mul_def rn x_def P_def)
  have "den * x + e * n = n * (den * f + e)"
    by (simp add: x_def algebra_simps)
  also have "\<dots> = n * (num * P)" by (simp only: fP)
  finally have xf: "den * x + e * n = num * n * P" by simp
  have "den * f \<le> den * P"
  proof -
    have "den * f \<le> num * P" using fP by simp
    also have "\<dots> \<le> den * P" using frac(1) by (rule mult_le_mono1)
    finally show ?thesis .
  qed
  then have "f \<le> P" using frac(2) by simp
  then have "x \<le> n * 2 ^ 55" by (simp add: x_def P_def)
  then have "x div 2 ^ 53 \<le> (n * 2 ^ 55) div 2 ^ 53" by (rule div_le_mono)
  also have "\<dots> = 4 * n" by simp
  finally have err: "x div 2 ^ 53 \<le> 4 * n" .
  have up: "den * round53 x \<le> den * x + 4 * den * n"
  proof -
    have "round53 x \<le> x + 4 * n" using round53_error(1) [of x] err by linarith
    then have "den * round53 x \<le> den * (x + 4 * n)" by (rule mult_le_mono2)
    then show ?thesis by (simp add: algebra_simps)
  qed
  have down: "den * x \<le> den * round53 x + 4 * den * n"
  proof -
    have "x \<le> round53 x + 4 * n" using round53_error(2) [of x] err by linarith
    then have "den * x \<le> den * (round53 x + 4 * n)" by (rule mult_le_mono2)
    then show ?thesis by (simp add: algebra_simps)
  qed
  have budget: "4 * den * n + e * n < P" using smallP by (simp add: algebra_simps)
  show ?thesis
  proof (cases "den * c < num * n")
    case True
    then have "den * c + 1 \<le> num * n" by simp
    then have "(den * c + 1) * P \<le> num * n * P" by (rule mult_le_mono1)
    then have "den * (c * P) + P \<le> num * n * P" by (simp add: algebra_simps)
    then have "den * (c * P) + P \<le> den * x + e * n" by (simp only: xf)
    then have "den * (c * P) < den * round53 x" using down budget by linarith
    then have "c * P < round53 x" by simp
    with True show ?thesis by (simp add: lt)
  next
    case False
    have "round53 x \<le> c * P"
    proof (cases "den * c = num * n")
      case True
      have "den * x \<le> num * n * P" using xf by linarith
      also have "\<dots> = den * (c * P)" using True by simp
      finally have "x \<le> c * P" using frac(2) by simp
      then have "round53 x \<le> round53 (c * P)" by (rule round53_mono)
      moreover have "den * c \<le> den * n"
        unfolding True using frac(1) by (rule mult_le_mono1)
      then have "c < 2 ^ 53" using n53 frac(2) by simp
      then have "round53 (c * P) = c * P" unfolding P_def by (rule round53_exact)
      ultimately show ?thesis by simp
    next
      case neq: False
      then have "num * n + 1 \<le> den * c" using False by simp
      then have "(num * n + 1) * P \<le> den * c * P" by (rule mult_le_mono1)
      then have "num * n * P + P \<le> den * (c * P)" by (simp add: algebra_simps)
      then have "den * x + e * n + P \<le> den * (c * P)" by (simp only: xf)
      then have "den * round53 x \<le> den * (c * P)" using up budget by linarith
      then show ?thesis using frac(2) by simp
    qed
    with False show ?thesis by (simp add: lt)
  qed
qed

lemma int_lt_mul_0_6:
  assumes n: "n < 2 ^ 50"
  shows "int_lt_mul c n float_0_6 \<longleftrightarrow> 5 * c < 3 * n"
proof (rule int_lt_mul_fraction_below)
  show "5 * float_0_6 + 4 = 3 * 2 ^ 55" by (rule float_literals)
  show "(4 * 5 + 4) * n < 2 ^ 55" using n by simp
qed simp_all

text \<open>The double \<open>0.1\<close> is above one tenth; a product that is a whole number rounds to it.\<close>

lemma bit_length_shift:
  assumes m: "0 < m" and e: "e < 2 ^ k"
  shows "bit_length (m * 2 ^ k + e) = bit_length m + k"
proof (rule antisym)
  have "m + 1 \<le> 2 ^ bit_length m" using bit_length_upper [of m] by simp
  then have "(m + 1) * 2 ^ k \<le> 2 ^ bit_length m * 2 ^ k" by (rule mult_le_mono1)
  moreover have "m * 2 ^ k + e < (m + 1) * 2 ^ k" using e by simp
  ultimately have "m * 2 ^ k + e < 2 ^ (bit_length m + k)" by (simp add: power_add)
  then show "bit_length (m * 2 ^ k + e) \<le> bit_length m + k"
    by (simp only: bit_length_le_iff)
next
  have pos: "0 < bit_length m" using m by (simp add: bit_length_pos)
  then have "2 ^ (bit_length m - 1) \<le> m" by (rule bit_length_lower)
  then have "2 ^ (bit_length m - 1) * 2 ^ k \<le> m * 2 ^ k" by (rule mult_le_mono1)
  then have "2 ^ (bit_length m - 1) * 2 ^ k \<le> m * 2 ^ k + e" by (rule trans_le_add1)
  then have "2 ^ (bit_length m - 1 + k) \<le> m * 2 ^ k + e" by (simp only: power_add)
  then have "\<not> m * 2 ^ k + e < 2 ^ (bit_length m - 1 + k)" by simp
  then have "\<not> bit_length (m * 2 ^ k + e) \<le> bit_length m - 1 + k"
    unfolding bit_length_le_iff .
  then show "bit_length m + k \<le> bit_length (m * 2 ^ k + e)" using pos by simp
qed

lemma round53_down:
  assumes m: "0 < m" "m < 2 ^ 53"
    and big: "53 < bit_length m + k"
    and e: "2 * e < 2 ^ (bit_length m + k - 53)"
  shows "round53 (m * 2 ^ k + e) = m * 2 ^ k"
proof -
  define s where "s = bit_length m + k - 53"
  have "bit_length m \<le> 53" using m(2) by (simp only: bit_length_le_iff)
  then have sk: "s \<le> k" and s0: "0 < s" using big by (simp_all add: s_def)
  have "(2::nat) ^ s = 2 * 2 ^ (s - 1)" using s0 by (simp flip: power_Suc)
  then have eh: "e < 2 ^ (s - 1)" using e by (simp add: s_def)
  also have "(2::nat) ^ (s - 1) \<le> 2 ^ s" by (simp add: power_increasing)
  finally have es: "e < 2 ^ s" .
  also have "(2::nat) ^ s \<le> 2 ^ k" using sk by (simp add: power_increasing)
  finally have ek: "e < 2 ^ k" .
  have bl: "bit_length (m * 2 ^ k + e) = bit_length m + k"
    using m(1) ek by (rule bit_length_shift)
  have "(2::nat) ^ s dvd 2 ^ k" using sk by (rule le_imp_power_dvd)
  then have dvd: "2 ^ s dvd m * 2 ^ k" by (rule dvd_mult)
  then obtain q where q: "m * 2 ^ k = q * 2 ^ s" by (auto simp add: dvd_def mult.commute)
  have qd: "(m * 2 ^ k + e) div 2 ^ s = q" using es by (simp add: q)
  have rm: "(m * 2 ^ k + e) mod 2 ^ s = e" using es by (simp add: q)
  have "round53 (m * 2 ^ k + e) = q * 2 ^ s"
    using big eh unfolding round53_def Let_def bl s_def [symmetric] qd rm
    by (simp add: s_def)
  then show ?thesis by (simp add: q)
qed

lemma int_lt_mul_0_1:
  assumes n: "n < 2 ^ 48"
  shows "int_lt_mul c n float_0_1 \<longleftrightarrow> 10 * c < n"
proof -
  define x where "x = n * float_0_1"
  define P :: nat where "P = 2 ^ 55"
  have f: "10 * float_0_1 = P + 2" by (simp add: float_0_1_def P_def)
  have n53: "n < 2 ^ 53" using n by simp
  have rn: "round53 n = n"
  proof (rule round53_small)
    show "bit_length n \<le> 53" using n53 by (simp only: bit_length_le_iff)
  qed
  have lt: "int_lt_mul c n float_0_1 \<longleftrightarrow> c * P < round53 x"
    by (simp add: int_lt_mul_def rn x_def P_def)
  have "10 * x = n * (10 * float_0_1)" by (simp add: x_def)
  also have "\<dots> = n * (P + 2)" by (simp only: f)
  finally have xf: "10 * x = n * P + 2 * n" by (simp add: algebra_simps)
  have "x \<le> n * 2 ^ 55" by (simp add: x_def float_0_1_def)
  then have "x div 2 ^ 53 \<le> (n * 2 ^ 55) div 2 ^ 53" by (rule div_le_mono)
  also have "\<dots> = 4 * n" by simp
  finally have err: "x div 2 ^ 53 \<le> 4 * n" .
  have budget: "42 * n < P" using n by (simp add: P_def)
  show ?thesis
  proof (cases "10 * c < n")
    case True
    then have "10 * c + 1 \<le> n" by simp
    then have "(10 * c + 1) * P \<le> n * P" by (rule mult_le_mono1)
    then have "10 * (c * P) + P \<le> n * P" by (simp add: algebra_simps)
    moreover have "10 * x \<le> 10 * round53 x + 40 * n"
      using round53_error(2) [of x] err by linarith
    ultimately have "c * P < round53 x" using xf budget by linarith
    with True show ?thesis by (simp add: lt)
  next
    case False
    have "round53 x \<le> c * P"
    proof (cases "10 * c = n")
      case True
      have "10 * x = 10 * (c * P + 2 * c)"
        unfolding xf True [symmetric] by (simp add: algebra_simps)
      then have x: "x = c * 2 ^ 55 + 2 * c" by (simp add: P_def)
      show ?thesis
      proof (cases "c = 0")
        case True
        then show ?thesis by (simp add: x round53_small)
      next
        case pos: False
        have "c < 2 ^ 53" using True n53 by simp
        moreover have "53 < bit_length c + 55" by simp
        moreover have "2 * (2 * c) < 2 ^ (bit_length c + 55 - 53)"
        proof -
          have "4 * c < 4 * 2 ^ bit_length c" using bit_length_upper [of c] by simp
          also have "\<dots> = 2 ^ (bit_length c + 2)" by (simp add: power_add)
          finally show ?thesis by simp
        qed
        ultimately have "round53 (c * 2 ^ 55 + 2 * c) = c * 2 ^ 55"
          using pos by (intro round53_down) simp_all
        then show ?thesis by (simp add: x P_def)
      qed
    next
      case neq: False
      then have "n + 1 \<le> 10 * c" using False by simp
      then have "(n + 1) * P \<le> 10 * c * P" by (rule mult_le_mono1)
      then have "n * P + P \<le> 10 * (c * P)" by (simp add: algebra_simps)
      moreover have "10 * round53 x \<le> 10 * x + 40 * n"
        using round53_error(1) [of x] err by linarith
      ultimately show ?thesis using xf budget by linarith
    qed
    with False show ?thesis by (simp add: lt)
  qed
qed

text \<open>
  For fewer than \<open>2 ^ 48\<close> entries, the test of line 128 at each threshold level is the
  comparison of the count with the fraction of the level times the number of entries.
\<close>

lemma threshold_levels_are_fractions:
  assumes n: "n < 2 ^ 48"
  shows "int_lt_mul c n float_0_1 \<longleftrightarrow> 10 * c < n"
    and "int_lt_mul c n float_0_25 \<longleftrightarrow> 4 * c < n"
    and "int_lt_mul c n float_0_5 \<longleftrightarrow> 2 * c < n"
    and "int_lt_mul c n float_0_75 \<longleftrightarrow> 4 * c < 3 * n"
    and "int_lt_mul c n float_0_95 \<longleftrightarrow> 20 * c < 19 * n"
proof -
  show "int_lt_mul c n float_0_1 \<longleftrightarrow> 10 * c < n"
    using n by (rule int_lt_mul_0_1)
  have "int_lt_mul c n float_0_25 \<longleftrightarrow> 4 * c < 1 * n"
  proof (rule int_lt_mul_fraction_below)
    show "4 * float_0_25 + 0 = 1 * 2 ^ 55" using float_literals(1) by simp
    show "(4 * 4 + 0) * n < 2 ^ 55" using n by simp
  qed simp_all
  then show "int_lt_mul c n float_0_25 \<longleftrightarrow> 4 * c < n" by simp
  have "int_lt_mul c n float_0_5 \<longleftrightarrow> 2 * c < 1 * n"
  proof (rule int_lt_mul_fraction_below)
    show "2 * float_0_5 + 0 = 1 * 2 ^ 55" using float_literals(2) by simp
    show "(4 * 2 + 0) * n < 2 ^ 55" using n by simp
  qed simp_all
  then show "int_lt_mul c n float_0_5 \<longleftrightarrow> 2 * c < n" by simp
  show "int_lt_mul c n float_0_75 \<longleftrightarrow> 4 * c < 3 * n"
  proof (rule int_lt_mul_fraction_below)
    show "4 * float_0_75 + 0 = 3 * 2 ^ 55" using float_literals(3) by simp
    show "(4 * 4 + 0) * n < 2 ^ 55" using n by simp
  qed simp_all
  show "int_lt_mul c n float_0_95 \<longleftrightarrow> 20 * c < 19 * n"
  proof (rule int_lt_mul_fraction_below)
    show "20 * float_0_95 + 32 = 19 * 2 ^ 55" by (rule float_literals)
    show "(4 * 20 + 32) * n < 2 ^ 55" using n by simp
  qed simp_all
qed

subsection \<open>The entry inventory\<close>

lemma username_display_name:
  "map_of user ''cn'' \<noteq> Some [] \<Longrightarrow> username user = Inr (display_name_spec user)"
  by (auto simp add: username_def display_name_spec_def split: option.splits list.splits)

lemma list_users_body_spec:
  assumes "map_of user ''cn'' \<noteq> Some []"
  shows "list_users_body users counts (out, n) user =
           Inr (if display_name_spec user = ''Unknown'' then (out, n)
                else (out @ [(tier_colour (tier_spec (length users) counts user),
                              display_name_spec user)], n + 1))"
  by (simp add: list_users_body_def username_display_name [OF assms] tier_spec_def Let_def
      list_ex_iff)

lemma list_users_loop_spec:
  assumes "\<forall>u \<in> set us. map_of u ''cn'' \<noteq> Some []"
  shows "list_users_loop users counts (out, n) us =
           Inr (out @ map (\<lambda>u. (tier_colour (tier_spec (length users) counts u),
                                  display_name_spec u))
                        (filter (\<lambda>u. display_name_spec u \<noteq> ''Unknown'') us),
                n + length (filter (\<lambda>u. display_name_spec u \<noteq> ''Unknown'') us))"
  using assms
proof (induction us arbitrary: out n)
  case Nil
  show ?case by simp
next
  case (Cons u us)
  then have u: "map_of u ''cn'' \<noteq> Some []" by simp
  show ?case
    using Cons by (simp add: list_users_body_spec [OF u])
qed

text \<open>
  C8. When every \<open>cn\<close> of the collection has a value, \<open>list_users\<close> returns: one line
  for each entry whose display name is not \<open>Unknown\<close>, in the order of the collection,
  in the colour of the one tier that the specification gives the entry; and the number
  of these lines. The cut-off is the double \<open>0.6\<close>, and no threshold level is an
  argument of \<open>list_users\<close>. For fewer than \<open>2 ^ 50\<close> entries the comparison with the
  rounded product \<open>0.6 * total_entries\<close> is the comparison with three fifths of
  the number of entries.
\<close>

theorem list_users_tiers:
  assumes "\<forall>u \<in> set users. map_of u ''cn'' \<noteq> Some []"
  shows "list_users users counts =
           Inr (map (\<lambda>u. (tier_colour (tier_spec (length users) counts u),
                            display_name_spec u))
                  (filter (\<lambda>u. display_name_spec u \<noteq> ''Unknown'') users),
                length (filter (\<lambda>u. display_name_spec u \<noteq> ''Unknown'') users)) \<and>
         (length users < 2 ^ 50 \<longrightarrow>
            (\<forall>c. int_lt_mul c (length users) float_0_6 \<longleftrightarrow> 5 * c < 3 * length users))"
  using list_users_loop_spec [OF assms, of users counts "[]" 0] int_lt_mul_0_6
  by (simp add: list_users_def)

theorem list_users_tiers_witness:
  "list_users
     [[(''cn'', [''A'']), (''foo'', [''1''])], [(''cn'', [''B''])], [(''cn'', [''Unknown''])],
      [(''cn'', [''C'']), (''mail'', [''m''])]]
     (field_count
        [[(''cn'', [''A'']), (''foo'', [''1''])], [(''cn'', [''B''])], [(''cn'', [''Unknown''])],
         [(''cn'', [''C'']), (''mail'', [''m''])]]) =
   Inr ([(RED, ''A''), (RESET, ''B''), (YELLOW, ''C'')], 3)"
proof -
  let ?a = "[(''cn'', [''A'']), (''foo'', [''1''])]"
  let ?b = "[(''cn'', [''B''])]"
  let ?u = "[(''cn'', [''Unknown''])]"
  let ?c = "[(''cn'', [''C'']), (''mail'', [''m''])]"
  define users where "users = [?a, ?b, ?u, ?c]"
  have wf: "\<forall>u \<in> set users. map_of u ''cn'' \<noteq> Some []"
    by (simp add: users_def)
  have c: "field_count users ''cn'' = 4" "field_count users ''mail'' = 1" "length users = 4"
    by (simp_all add: users_def field_count_def keys_def)
  have lt: "\<not> int_lt_mul (field_count users ''cn'') (length users) float_0_6"
    "int_lt_mul (field_count users ''mail'') (length users) float_0_6"
    unfolding c by (simp_all add: int_lt_mul_def round53_def float_0_6_def Let_def)
  have std: "''cn'' \<in> standard_ldap_fields" "''mail'' \<in> standard_ldap_fields"
    "''foo'' \<notin> standard_ldap_fields"
    by (simp_all add: standard_ldap_fields_def)
  have tiers: "tier_spec (length users) (field_count users) ?a = NonStandard"
    "tier_spec (length users) (field_count users) ?b = Standard"
    "tier_spec (length users) (field_count users) ?c = Rare"
    by (simp_all add: tier_spec_def keys_def std lt)
  have names: "display_name_spec ?a = ''A''" "display_name_spec ?b = ''B''"
    "display_name_spec ?u = ''Unknown''" "display_name_spec ?c = ''C''"
    by (simp_all add: display_name_spec_def)
  have lines: "map (\<lambda>u. (tier_colour (tier_spec (length users) (field_count users) u),
                          display_name_spec u))
                 (filter (\<lambda>u. display_name_spec u \<noteq> ''Unknown'') xs) =
               [(RED, ''A''), (RESET, ''B''), (YELLOW, ''C'')]"
    and count: "length (filter (\<lambda>u. display_name_spec u \<noteq> ''Unknown'') xs) = 3"
    if "xs = [?a, ?b, ?u, ?c]" for xs
    unfolding that by (simp_all add: tiers names)
  have "list_users users (field_count users) =
          Inr ([(RED, ''A''), (RESET, ''B''), (YELLOW, ''C'')], 3)"
    using list_users_tiers [OF wf, of "field_count users"]
    by (simp only: lines [OF users_def] count [OF users_def])
  then show ?thesis unfolding users_def .
qed

subsection \<open>Stripping\<close>

lemma colon_not_space: "\<not> is_space CHR '':''"
  by (simp add: is_space_def)

lemma trim_both_commute:
  "rev (dropWhile P (rev (dropWhile P s))) = dropWhile P (rev (dropWhile P (rev s)))"
proof (cases "dropWhile P s")
  case Nil
  then have all: "\<forall>x \<in> set s. P x" by (simp add: dropWhile_eq_Nil_conv)
  then have r: "dropWhile P (rev s) = []" by (simp add: dropWhile_eq_Nil_conv)
  show ?thesis unfolding Nil r by simp
next
  case (Cons y ys)
  then have y: "\<not> P y" using hd_dropWhile [of P s] by auto
  have s: "s = takeWhile P s @ y # ys"
    using Cons takeWhile_dropWhile_id [of P s] by simp
  have t: "\<forall>x \<in> set (takeWhile P s). P x" by (auto dest: set_takeWhileD)
  have "dropWhile P (rev s) = dropWhile P (rev ys @ y # rev (takeWhile P s))"
    by (subst s) simp
  also have "\<dots> = dropWhile P (rev ys) @ y # rev (takeWhile P s)"
    using y by (rule dropWhile_append3)
  finally have "rev (dropWhile P (rev s)) = takeWhile P s @ y # rev (dropWhile P (rev ys))"
    by simp
  then have rhs: "dropWhile P (rev (dropWhile P (rev s))) = y # rev (dropWhile P (rev ys))"
    using t y by (simp add: dropWhile_append)
  have "dropWhile P (rev (y # ys)) = dropWhile P (rev ys) @ [y]"
    using y dropWhile_append3 [of P y "rev ys" "[]"] by simp
  then have "rev (dropWhile P (rev (dropWhile P s))) = y # rev (dropWhile P (rev ys))"
    by (simp add: Cons)
  with rhs show ?thesis by simp
qed

lemma strip_idem: "strip (strip s) = strip s"
proof -
  have "dropWhile is_space (strip s) = strip s"
    unfolding strip_def by (simp add: trim_both_commute [of is_space s])
  then show ?thesis
    by (simp add: strip_def [of "strip s"]) (simp add: strip_def)
qed

lemma strip_dropWhile: "strip (dropWhile is_space s) = strip s"
  by (simp add: strip_def)

lemma strip_trailing: "strip (rev (dropWhile is_space (rev s))) = strip s"
proof -
  have "dropWhile is_space (rev (dropWhile is_space (rev s))) =
        rev (dropWhile is_space (rev (dropWhile is_space s)))"
    by (rule trim_both_commute [symmetric])
  then show ?thesis by (simp add: strip_def)
qed

lemma set_strip: "set (strip s) \<subseteq> set s"
proof -
  have "set (strip s) \<subseteq> set (dropWhile is_space s)"
    unfolding strip_def using set_dropWhileD by fastforce
  also have "\<dots> \<subseteq> set s" using set_dropWhileD by fastforce
  finally show ?thesis .
qed

lemma strip_around:
  assumes "\<not> is_space y"
  shows "strip (pre @ y # post) =
           dropWhile is_space pre @ y # rev (dropWhile is_space (rev post))"
proof -
  have "dropWhile is_space (pre @ y # post) = dropWhile is_space pre @ y # post"
    using assms by (rule dropWhile_append3)
  moreover have "dropWhile is_space (rev post @ y # rev (dropWhile is_space pre)) =
                 dropWhile is_space (rev post) @ y # rev (dropWhile is_space pre)"
    using assms by (rule dropWhile_append3)
  ultimately show ?thesis by (simp add: strip_def)
qed

lemma strip_fixed_iff:
  "strip s = s \<longleftrightarrow> s = [] \<or> (\<not> is_space (hd s) \<and> \<not> is_space (last s))"
proof (cases s)
  case Nil
  then show ?thesis by (simp add: strip_def)
next
  case (Cons a as)
  show ?thesis
  proof (cases "is_space a")
    case True
    have "length (strip s) \<le> length (dropWhile is_space s)"
      unfolding strip_def
      using length_dropWhile_le [of is_space "rev (dropWhile is_space s)"] by simp
    also have "\<dots> < length s"
      using True Cons length_dropWhile_le [of is_space as] by (simp add: less_Suc_eq_le)
    finally have "strip s \<noteq> s" by auto
    then show ?thesis using True Cons by simp
  next
    case False
    then have d: "dropWhile is_space s = s" using Cons by simp
    obtain bs l where bs: "s = bs @ [l]" and l: "l = last s"
      using Cons by (metis append_butlast_last_id list.distinct(1))
    have r: "rev s = l # rev bs" unfolding bs by simp
    show ?thesis
    proof (cases "is_space l")
      case True
      have "length (dropWhile is_space (rev s)) \<le> length bs"
        unfolding r using True length_dropWhile_le [of is_space "rev bs"] by simp
      moreover have "length s = Suc (length bs)" unfolding bs by simp
      ultimately have "length (strip s) < length s"
        by (simp add: strip_def d)
      then have "strip s \<noteq> s" by auto
      then show ?thesis using True Cons l by simp
    next
      case False
      then have "dropWhile is_space (rev s) = rev s" unfolding r by simp
      then have "strip s = s" by (simp add: strip_def d)
      then show ?thesis using False \<open>\<not> is_space a\<close> Cons l by simp
    qed
  qed
qed

subsection \<open>One line of the parser\<close>

lemma keys_map_entry: "keys (AList.map_entry k f xs) = keys xs"
  unfolding keys_def by (induction xs) auto

lemma map_entry_last:
  assumes "distinct (keys (before @ [(k, v)]))"
  shows "AList.map_entry k f (before @ [(k, v)]) = before @ [(k, f v)]"
  using assms unfolding keys_def by (induction before) auto

lemma map_of_last:
  assumes "distinct (keys (before @ [(k, v)]))"
  shows "map_of (before @ [(k, v)]) k = Some v"
  using assms unfolding keys_def by (induction before) auto

lemma split_colon_first:
  assumes "CHR '':'' \<notin> set pre"
  shows "split_colon (pre @ CHR '':'' # post) = [pre, post]"
proof -
  have no: "\<And>c. c \<in> set pre \<Longrightarrow> c \<noteq> CHR '':''"
    using assms by auto
  have "takeWhile (\<lambda>c. c \<noteq> CHR '':'') (pre @ CHR '':'' # post) = pre"
    by (simp add: takeWhile_append2 [OF no])
  moreover have "dropWhile (\<lambda>c. c \<noteq> CHR '':'') (pre @ CHR '':'' # post) = CHR '':'' # post"
    by (simp add: dropWhile_append2 [OF no])
  ultimately show ?thesis by (simp add: split_colon_def)
qed

text \<open>What the attribute branch does with a line whose first colon is after \<open>pre\<close>.\<close>

lemma parse_line_colon:
  assumes "CHR '':'' \<notin> set pre"
  shows "parse_line (users, user) (pre @ CHR '':'' # post) =
           Inr (users,
                if has_key (strip pre) user
                then AList.map_entry (strip pre) (\<lambda>vs. vs @ [strip post]) user
                else user @ [(strip pre, [strip post])])"
proof -
  let ?line = "dropWhile is_space pre @ CHR '':'' # rev (dropWhile is_space (rev post))"
  have line: "strip (pre @ CHR '':'' # post) = ?line"
    using colon_not_space by (rule strip_around)
  have "CHR '':'' \<notin> set (dropWhile is_space pre)"
    using assms set_dropWhileD by fastforce
  then have split: "split_colon ?line =
      [dropWhile is_space pre, rev (dropWhile is_space (rev post))]"
    by (rule split_colon_first)
  show ?thesis
    by (simp add: parse_line_def line split strip_dropWhile strip_trailing Let_def)
qed

subsection \<open>Attribute lines\<close>

text \<open>
  C6. A line with a colon is split at its first colon; the key is the stripped text
  before it and the value the stripped text after it. If the accumulator has the key,
  the value goes to the end of the values of the key, and the keys keep their order;
  otherwise the key is added after the keys of the accumulator, with the value alone.
  No other key changes, and the entries already collected stay. The text
  \<^verbatim>\<open>mail: a@x.com\<close>, \<^verbatim>\<open>mail: b@x.com\<close> and an empty line parses to one entry in
  which \<open>mail\<close> has the two values in this order.
\<close>

theorem attribute_line_accumulates:
  assumes first: "CHR '':'' \<notin> set pre"
  shows "(\<exists>user'.
            parse_line (users, user) (pre @ CHR '':'' # post) = Inr (users, user') \<and>
            keys user' = (if has_key (strip pre) user then keys user
                          else keys user @ [strip pre]) \<and>
            map_of user' (strip pre) =
              Some (case map_of user (strip pre) of
                      None \<Rightarrow> [strip post]
                    | Some vs \<Rightarrow> vs @ [strip post]) \<and>
            (\<forall>k. k \<noteq> strip pre \<longrightarrow> map_of user' k = map_of user k)) \<and>
         parse_ldap_output ''mail: a@x.com\<newline>mail: b@x.com\<newline>\<newline>'' =
           Inr [[(''mail'', [''a@x.com'', ''b@x.com''])]]"
proof -
  let ?k = "strip pre" and ?v = "strip post"
  let ?user' = "if has_key ?k user then AList.map_entry ?k (\<lambda>vs. vs @ [?v]) user
                else user @ [(?k, [?v])]"
  have step: "parse_line (users, user) (pre @ CHR '':'' # post) = Inr (users, ?user')"
    using first by (rule parse_line_colon)
  have keys: "keys ?user' = (if has_key ?k user then keys user else keys user @ [?k])"
    by (simp add: keys_map_entry) (simp add: keys_def)
  have at_key: "map_of ?user' ?k =
      Some (case map_of user ?k of None \<Rightarrow> [?v] | Some vs \<Rightarrow> vs @ [?v])"
  proof (cases "has_key ?k user")
    case True
    then obtain vs where "map_of user ?k = Some vs"
      by (auto simp add: has_key_map_of)
    with True show ?thesis by (simp add: AList.map_of_map_entry)
  next
    case False
    then have "map_of user ?k = None" by (simp add: has_key_map_of)
    with False show ?thesis by (simp add: map_add_def)
  qed
  have others: "\<forall>k. k \<noteq> ?k \<longrightarrow> map_of ?user' k = map_of user k"
    by (auto simp add: AList.map_of_map_entry map_add_def split: option.splits)
  have example: "parse_ldap_output ''mail: a@x.com\<newline>mail: b@x.com\<newline>\<newline>'' =
           Inr [[(''mail'', [''a@x.com'', ''b@x.com''])]]"
    by (simp add: parse_ldap_output_def splitlines_def is_linebreak_def parse_line_def
        strip_def is_space_def split_colon_def has_key_def keys_def)
  show ?thesis
    using step keys at_key others example by blast
qed

theorem attribute_line_accumulates_witness:
  "CHR '':'' \<notin> set ''mail'' \<and>
   strip ''mail'' = ''mail'' \<and> strip '' b@x.com '' = ''b@x.com'' \<and>
   parse_line ([], [(''mail'', [''a@x.com''])]) (''mail'' @ CHR '':'' # '' b@x.com '') =
     Inr ([], [(''mail'', [''a@x.com'', ''b@x.com''])])"
proof -
  let ?user = "[(''mail'', [''a@x.com''])]"
  have h: "CHR '':'' \<notin> set ''mail''" by simp
  have k: "strip ''mail'' = ''mail''" and v: "strip '' b@x.com '' = ''b@x.com''"
    by (simp_all add: strip_def is_space_def)
  have has: "has_key ''mail'' ?user" by (simp add: has_key_def keys_def)
  from attribute_line_accumulates [OF h, of "[]" ?user "'' b@x.com ''"]
  obtain user' where step: "parse_line ([], ?user) (''mail'' @ CHR '':'' # '' b@x.com '') =
        Inr ([], user')"
    and keys: "keys user' = keys ?user"
    and val: "map_of user' ''mail'' = Some [''a@x.com'', ''b@x.com'']"
    unfolding k v using has by auto
  from keys obtain vs where "user' = [(''mail'', vs)]"
    by (cases user') (auto simp add: keys_def)
  with val have "user' = [(''mail'', [''a@x.com'', ''b@x.com''])]" by simp
  with step h k v show ?thesis by simp
qed

subsection \<open>Continuation lines\<close>

lemma continue_last_distinct:
  assumes "distinct (keys (before @ [(k, vs @ [v])]))"
  shows "continue_last (before @ [(k, vs @ [v])]) line =
           Inr (before @ [(k, vs @ [v @ '' '' @ strip line])])"
proof -
  have lk: "last (keys (before @ [(k, vs @ [v])])) = k" by (simp add: keys_def)
  show ?thesis
    unfolding continue_last_def Let_def lk map_of_last [OF assms] map_entry_last [OF assms]
    by simp
qed

text \<open>
  C5, as the claim states it, fails: line 47 also asks that the last key of the
  accumulator is not the empty string. After the line \<^verbatim>\<open>:x\<close> the accumulator has one
  attribute, whose key is empty, and the line \<^verbatim>\<open>foo\<close> is discarded.
\<close>

theorem continuation_after_empty_key_counterexample:
  "parse_line ([], []) '':x'' = Inr ([], [([], [''x''])]) \<and>
   parse_line ([], [([], [''x''])]) ''foo'' = Inr ([], [([], [''x''])]) \<and>
   parse_ldap_output '':x\<newline>foo\<newline>'' = Inr [[([], [''x''])]]"
  by (simp add: parse_ldap_output_def splitlines_def is_linebreak_def parse_line_def
      strip_def is_space_def split_colon_def has_key_def keys_def)

text \<open>
  C5, amended. Take a line with no colon that is not blank. If the accumulator has an
  attribute and the key it inserted last is not the empty string, the stripped line,
  after one space, is appended to the last value of that key. If the accumulator has no
  attribute, or the key it inserted last is the empty string, the line is discarded and
  the state stays as it is; nothing is raised. The text \<^verbatim>\<open>description: Long te\<close>,
  \<^verbatim>\<open> xt here\<close> and an empty line parses to one entry in which \<open>description\<close> has
  the one value \<^verbatim>\<open>Long te xt here\<close>. The accumulator is a dict, so its keys are
  distinct, and the values of its last key are written \<open>vs @ [v]\<close>.
\<close>

theorem continuation_line:
  assumes no_colon: "CHR '':'' \<notin> set raw"
    and not_blank: "strip raw \<noteq> []"
    and dict: "distinct (keys (before @ [(k, vs @ [v])]))"
  shows "parse_line (users, before @ [(k, vs @ [v])]) raw =
           Inr (users, before @ [(k, vs @ [if k = [] then v else v @ '' '' @ strip raw])]) \<and>
         parse_line (users, []) raw = Inr (users, []) \<and>
         parse_ldap_output ''description: Long te\<newline> xt here\<newline>\<newline>'' =
           Inr [[(''description'', [''Long te xt here''])]]"
proof -
  have nc: "CHR '':'' \<notin> set (strip raw)"
    using no_colon set_strip by fastforce
  have lk: "last (keys (before @ [(k, vs @ [v])])) = k" by (simp add: keys_def)
  have full: "parse_line (users, before @ [(k, vs @ [v])]) raw =
           Inr (users, before @ [(k, vs @ [if k = [] then v else v @ '' '' @ strip raw])])"
    using nc not_blank
    by (simp add: parse_line_def Let_def lk continue_last_distinct [OF dict] strip_idem)
  have empty: "parse_line (users, []) raw = Inr (users, [])"
    using nc not_blank by (simp add: parse_line_def Let_def)
  have example: "parse_ldap_output ''description: Long te\<newline> xt here\<newline>\<newline>'' =
           Inr [[(''description'', [''Long te xt here''])]]"
    by (simp add: parse_ldap_output_def splitlines_def is_linebreak_def parse_line_def
        strip_def is_space_def split_colon_def has_key_def keys_def continue_last_def)
  show ?thesis using full empty example by (intro conjI)
qed

theorem continuation_line_witness:
  "CHR '':'' \<notin> set '' xt here'' \<and> strip '' xt here'' = ''xt here'' \<and>
   parse_line ([], [(''cn'', [''a'']), (''description'', [''first'', ''Long te''])]) '' xt here'' =
     Inr ([], [(''cn'', [''a'']), (''description'', [''first'', ''Long te xt here''])]) \<and>
   parse_line ([], []) '' xt here'' = Inr ([], [])"
proof -
  have h1: "CHR '':'' \<notin> set '' xt here''" by simp
  have s: "strip '' xt here'' = ''xt here''" by (simp add: strip_def is_space_def)
  have h2: "strip '' xt here'' \<noteq> []" by (simp add: s)
  have h3: "distinct (keys ([(''cn'', [''a''])] @ [(''description'', [''first''] @ [''Long te''])]))"
    by (simp add: keys_def)
  show ?thesis
    using continuation_line [OF h1 h2 h3, of "[]"] h1 s by simp
qed

subsection \<open>The parser never raises\<close>

lemma values_map_entry_append:
  "[] \<notin> snd ` set user \<Longrightarrow> [] \<notin> snd ` set (AList.map_entry k (\<lambda>vs. vs @ [x]) user)"
  by (induction user) auto

lemma acc_ok_colon:
  assumes "acc_ok user"
  shows "acc_ok (if has_key k user then AList.map_entry k (\<lambda>vs. vs @ [x]) user
                 else user @ [(k, [x])])"
proof (cases "has_key k user")
  case True
  have "distinct (map fst (AList.map_entry k (\<lambda>vs. vs @ [x]) user))"
    using assms by (intro AList.distinct_map_entry) (simp add: acc_ok_def keys_def)
  then show ?thesis
    using True assms by (simp add: acc_ok_def keys_def values_map_entry_append)
next
  case False
  then show ?thesis
    using assms by (auto simp add: acc_ok_def keys_def has_key_def)
qed

lemma parse_line_ok:
  assumes ok: "acc_ok user"
  shows "\<exists>users' user'. parse_line (users, user) raw = Inr (users', user') \<and> acc_ok user'"
proof (cases "strip raw = []")
  case True
  then show ?thesis by (simp add: parse_line_def acc_ok_def keys_def)
next
  case blank: False
  show ?thesis
  proof (cases "CHR '':'' \<in> set raw")
    case True
    then obtain pre post where raw: "raw = pre @ CHR '':'' # post" and "CHR '':'' \<notin> set pre"
      by (auto dest: split_list_first)
    then show ?thesis
      using acc_ok_colon [OF ok] unfolding raw by (simp add: parse_line_colon)
  next
    case False
    then have nc: "CHR '':'' \<notin> set (strip raw)" using set_strip by fastforce
    show ?thesis
    proof (cases "user \<noteq> [] \<and> last (keys user) \<noteq> []")
      case False
      then show ?thesis
        using nc blank ok by (auto simp add: parse_line_def Let_def)
    next
      case True
      then obtain before k vv where user: "user = before @ [(k, vv)]"
        by (metis append_butlast_last_id surj_pair)
      then have "vv \<noteq> []" using ok by (auto simp add: acc_ok_def)
      then obtain vs v where vv: "vv = vs @ [v]"
        by (metis append_butlast_last_id)
      have dist: "distinct (keys (before @ [(k, vs @ [v])]))"
        using ok by (simp add: acc_ok_def user vv)
      have k: "k \<noteq> []" using True by (simp add: user keys_def)
      have lk: "last (keys (before @ [(k, vs @ [v])])) = k" by (simp add: keys_def)
      have "parse_line (users, user) raw =
              Inr (users, before @ [(k, vs @ [v @ '' '' @ strip raw])])"
        unfolding user vv using nc blank k
        by (simp add: parse_line_def Let_def lk continue_last_distinct [OF dist] strip_idem)
      moreover have "acc_ok (before @ [(k, vs @ [v @ '' '' @ strip raw])])"
        using ok by (auto simp add: acc_ok_def user vv keys_def)
      ultimately show ?thesis by blast
    qed
  qed
qed

lemma parse_lines_ok:
  assumes "acc_ok user"
  shows "\<exists>users' user'. parse_lines (users, user) ls = Inr (users', user')"
  using assms
proof (induction ls arbitrary: users user)
  case Nil
  show ?case by simp
next
  case (Cons l ls)
  obtain users1 user1 where "parse_line (users, user) l = Inr (users1, user1)" "acc_ok user1"
    using parse_line_ok [OF Cons.prems] by blast
  then show ?case using Cons.IH [of user1 users1] by simp
qed

lemma parse_ldap_output_total: "\<exists>entries. parse_ldap_output text = Inr entries"
proof -
  have "acc_ok []" by (simp add: acc_ok_def keys_def)
  then obtain users user where "parse_lines ([], []) (splitlines text) = Inr (users, user)"
    using parse_lines_ok by blast
  then show ?thesis by (simp add: parse_ldap_output_def)
qed

subsection \<open>Round trip\<close>

lemma newline_is_linebreak: "is_linebreak CHR ''\<newline>''" "of_char CHR ''\<newline>'' \<noteq> (13::nat)"
  by (simp_all add: is_linebreak_def)

lemma not_linebreak_not_cr: "\<not> is_linebreak c \<Longrightarrow> of_char c \<noteq> (13::nat)"
  by (auto simp add: is_linebreak_def)

lemma splitlines_from_line:
  assumes "\<forall>c \<in> set l. \<not> is_linebreak c"
  shows "splitlines_from cur (l @ CHR ''\<newline>'' # rest) = (cur @ l) # splitlines_from [] rest"
  using assms
proof (induction l arbitrary: cur)
  case Nil
  show ?case
    by (cases rest) (simp_all add: newline_is_linebreak)
next
  case (Cons c l)
  obtain d cs where tail: "l @ CHR ''\<newline>'' # rest = d # cs"
    by (cases "l @ CHR ''\<newline>'' # rest") auto
  have c: "\<not> is_linebreak c" using Cons.prems by simp
  have "splitlines_from cur ((c # l) @ CHR ''\<newline>'' # rest) =
        splitlines_from (cur @ [c]) (l @ CHR ''\<newline>'' # rest)"
    using c not_linebreak_not_cr [OF c] by (simp add: tail)
  also have "\<dots> = ((cur @ [c]) @ l) # splitlines_from [] rest"
    using Cons.prems by (intro Cons.IH) simp
  finally show ?case by simp
qed

lemma splitlines_from_lines:
  assumes "\<forall>l \<in> set ls. \<forall>c \<in> set l. \<not> is_linebreak c"
  shows "splitlines_from [] (concat (map (\<lambda>l. l @ ''\<newline>'') ls) @ rest) =
           ls @ splitlines_from [] rest"
  using assms
proof (induction ls)
  case Nil
  show ?case by simp
next
  case (Cons l ls)
  have "splitlines_from [] (concat (map (\<lambda>l. l @ ''\<newline>'') (l # ls)) @ rest) =
        splitlines_from [] (l @ CHR ''\<newline>'' # (concat (map (\<lambda>l. l @ ''\<newline>'') ls) @ rest))"
    by simp
  also have "\<dots> = ([] @ l) # splitlines_from [] (concat (map (\<lambda>l. l @ ''\<newline>'') ls) @ rest)"
    using Cons.prems by (intro splitlines_from_line) simp
  finally show ?case using Cons by simp
qed

lemma parse_lines_append:
  "parse_lines st (xs @ ys) =
     (case parse_lines st xs of Inl e \<Rightarrow> Inl e | Inr st' \<Rightarrow> parse_lines st' ys)"
  by (induction xs arbitrary: st) (auto split: sum.splits)

lemma strip_after_space:
  assumes "strip v = v"
  shows "strip (CHR '' '' # v) = v"
proof -
  have "is_space CHR '' ''" by (simp add: is_space_def)
  then have "strip (CHR '' '' # v) = strip v" by (simp add: strip_def)
  with assms show ?thesis by simp
qed

text \<open>The lines of an entry whose attributes have one value each.\<close>

lemma parse_lines_single_valued:
  assumes "distinct (keys (acc @ es))"
    and "\<forall>k \<in> set (keys es). strip k = k \<and> CHR '':'' \<notin> set k"
    and "\<forall>vs \<in> snd ` set es. \<exists>v. vs = [v] \<and> strip v = v"
  shows "parse_lines (users, acc) (map (\<lambda>(k, vs). k @ '': '' @ hd vs) es) =
           Inr (users, acc @ es)"
  using assms
proof (induction es arbitrary: acc)
  case Nil
  show ?case by simp
next
  case (Cons p es)
  obtain k vs where p: "p = (k, vs)" by (cases p)
  obtain v where vs: "vs = [v]" and v: "strip v = v"
    using Cons.prems(3) by (auto simp add: p)
  have k: "strip k = k" and no: "CHR '':'' \<notin> set k"
    using Cons.prems(2) by (simp_all add: p keys_def)
  have new: "\<not> has_key k acc"
    using Cons.prems(1) by (auto simp add: p keys_def has_key_def)
  have "parse_line (users, acc) (k @ CHR '':'' # CHR '' '' # v) =
          Inr (users, acc @ [(k, [v])])"
    using new by (simp add: parse_line_colon [OF no] k strip_after_space [OF v])
  moreover have "parse_lines (users, acc @ [(k, [v])]) (map (\<lambda>(k, vs). k @ '': '' @ hd vs) es) =
          Inr (users, (acc @ [(k, [v])]) @ es)"
    using Cons.prems by (intro Cons.IH) (simp_all add: p vs keys_def)
  ultimately show ?case by (simp add: p vs)
qed

lemma serialize_single_valued:
  assumes "\<forall>vs \<in> snd ` set e. \<exists>v. vs = [v]"
  shows "serialize_entry_spec e =
           concat (map (\<lambda>l. l @ ''\<newline>'') (map (\<lambda>(k, vs). k @ '': '' @ hd vs) e)) @ ''\<newline>''"
proof -
  have "concat (map (\<lambda>(key, values).
               concat (map (\<lambda>value. key @ '': '' @ value @ ''\<newline>'') values)) e) =
        concat (map (\<lambda>l. l @ ''\<newline>'') (map (\<lambda>(k, vs). k @ '': '' @ hd vs) e))"
    using assms by (induction e) auto
  then show ?thesis by (simp add: serialize_entry_spec_def)
qed

text \<open>
  An entry that is not empty and has distinct keys; whose keys have no colon, no line
  boundary and no whitespace at either end; and whose attributes have one value each,
  with no line boundary and no whitespace at either end. Written as one line
  \<^verbatim>\<open>key: value\<close> for each attribute and an empty line, and parsed again, it
  gives the collection of exactly this entry.
\<close>

lemma round_trip_plain:
  assumes not_empty: "e \<noteq> []"
    and dict: "distinct (keys e)"
    and keys_plain: "\<forall>k \<in> set (keys e).
          strip k = k \<and> CHR '':'' \<notin> set k \<and> (\<forall>c \<in> set k. \<not> is_linebreak c)"
    and single_plain: "\<forall>vs \<in> snd ` set e.
          \<exists>v. vs = [v] \<and> strip v = v \<and> (\<forall>c \<in> set v. \<not> is_linebreak c)"
  shows "parse_ldap_output (serialize_entry_spec e) = Inr [e]"
proof -
  let ?lines = "map (\<lambda>(k, vs). k @ '': '' @ hd vs) e"
  have colon_space: "\<not> is_linebreak CHR '':''" "\<not> is_linebreak CHR '' ''"
    by (simp_all add: is_linebreak_def)
  have plain: "\<forall>l \<in> set ?lines. \<forall>c \<in> set l. \<not> is_linebreak c"
  proof
    fix l assume "l \<in> set ?lines"
    then obtain k vs where kv: "(k, vs) \<in> set e" and l: "l = k @ '': '' @ hd vs" by auto
    from kv single_plain obtain v where "vs = [v]" "\<forall>c \<in> set v. \<not> is_linebreak c"
      by force
    moreover from kv keys_plain have "\<forall>c \<in> set k. \<not> is_linebreak c"
      by (force simp add: keys_def)
    ultimately show "\<forall>c \<in> set l. \<not> is_linebreak c"
      using colon_space by (auto simp add: l)
  qed
  have single: "\<forall>vs \<in> snd ` set e. \<exists>v. vs = [v]" using single_plain by blast
  have "splitlines (serialize_entry_spec e) = ?lines @ splitlines_from [] ''\<newline>''"
    unfolding splitlines_def serialize_single_valued [OF single]
    using plain by (rule splitlines_from_lines)
  then have lines: "splitlines (serialize_entry_spec e) = ?lines @ [[]]"
    by (simp add: newline_is_linebreak)
  have attrs: "parse_lines ([], []) ?lines = Inr ([], [] @ e)"
    using dict keys_plain single_plain by (intro parse_lines_single_valued) auto
  have blank: "parse_line ([], e) [] = Inr ([e], [])"
    using not_empty by (simp add: parse_line_def strip_def)
  have all: "parse_lines ([], []) (?lines @ [[]]) = Inr ([e], [])"
    unfolding parse_lines_append attrs using blank by simp
  show ?thesis
    unfolding parse_ldap_output_def lines all by simp
qed


subsection \<open>The entries of the parser\<close>

lemma splitlines_from_plain:
  "\<forall>c \<in> set cur. \<not> is_linebreak c \<Longrightarrow>
   \<forall>l \<in> set (splitlines_from cur s). \<forall>c \<in> set l. \<not> is_linebreak c"
proof (induction cur s rule: splitlines_from.induct)
  case (1 cur)
  then show ?case by simp
next
  case (2 cur c)
  then show ?case by simp
next
  case (3 cur c d cs)
  show ?case
  proof (cases "of_char c = (13::nat) \<and> of_char d = (10::nat)")
    case True
    have "\<forall>l \<in> set (splitlines_from [] cs). \<forall>x \<in> set l. \<not> is_linebreak x"
      using True by (intro "3.IH"(1)) simp_all
    then show ?thesis using True "3.prems" by simp
  next
    case crlf: False
    show ?thesis
    proof (cases "is_linebreak c")
      case True
      have "\<forall>l \<in> set (splitlines_from [] (d # cs)). \<forall>x \<in> set l. \<not> is_linebreak x"
        using crlf True by (intro "3.IH"(2)) simp_all
      then show ?thesis using "3.prems" by (simp add: crlf True)
    next
      case False
      have "\<forall>l \<in> set (splitlines_from (cur @ [c]) (d # cs)). \<forall>x \<in> set l. \<not> is_linebreak x"
        using crlf False "3.prems" by (intro "3.IH"(3)) simp_all
      then show ?thesis by (simp add: crlf False)
    qed
  qed
qed

lemma splitlines_plain: "\<forall>l \<in> set (splitlines s). \<forall>c \<in> set l. \<not> is_linebreak c"
  unfolding splitlines_def by (rule splitlines_from_plain) simp

lemma values_map_entry_plain:
  assumes "\<forall>vs \<in> snd ` set user. \<forall>v \<in> set vs. P v" and "P x"
  shows "\<forall>vs \<in> snd ` set (AList.map_entry k (\<lambda>vs. vs @ [x]) user). \<forall>v \<in> set vs. P v"
  using assms by (induction user) auto

lemma entry_ok_colon:
  assumes ok: "entry_ok user"
    and k: "strip k = k" "CHR '':'' \<notin> set k" "\<forall>c \<in> set k. \<not> is_linebreak c"
    and x: "\<forall>c \<in> set x. \<not> is_linebreak c"
  shows "entry_ok (if has_key k user then AList.map_entry k (\<lambda>vs. vs @ [x]) user
                   else user @ [(k, [x])])"
proof (cases "has_key k user")
  case True
  have "acc_ok (AList.map_entry k (\<lambda>vs. vs @ [x]) user)"
    using acc_ok_colon [of user k x] ok True by (simp add: entry_ok_def)
  moreover have "\<forall>vs \<in> snd ` set (AList.map_entry k (\<lambda>vs. vs @ [x]) user).
                   \<forall>v \<in> set vs. \<forall>c \<in> set v. \<not> is_linebreak c"
    using ok x by (intro values_map_entry_plain) (simp_all add: entry_ok_def)
  ultimately show ?thesis
    using True ok by (simp add: entry_ok_def keys_map_entry)
next
  case False
  have "acc_ok (user @ [(k, [x])])"
    using acc_ok_colon [of user k x] ok False by (simp add: entry_ok_def)
  then show ?thesis
    using False ok k x by (auto simp add: entry_ok_def keys_def)
qed

lemma parse_line_plain:
  assumes ok: "entry_ok user" and raw: "\<forall>c \<in> set raw. \<not> is_linebreak c"
  shows "\<exists>users' user'. parse_line (users, user) raw = Inr (users', user') \<and> entry_ok user' \<and>
           (users' = users \<or> (users' = users @ [user] \<and> user \<noteq> []))"
proof (cases "strip raw = []")
  case True
  then show ?thesis by (simp add: parse_line_def entry_ok_def acc_ok_def keys_def)
next
  case blank: False
  have sraw: "\<forall>c \<in> set (strip raw). \<not> is_linebreak c"
    using raw set_strip by fastforce
  show ?thesis
  proof (cases "CHR '':'' \<in> set raw")
    case True
    then obtain pre post where split: "raw = pre @ CHR '':'' # post" and pre: "CHR '':'' \<notin> set pre"
      by (auto dest: split_list_first)
    have "CHR '':'' \<notin> set (strip pre)" using pre set_strip by fastforce
    moreover have "\<forall>c \<in> set (strip pre). \<not> is_linebreak c"
      using raw set_strip [of pre] by (auto simp add: split)
    moreover have "\<forall>c \<in> set (strip post). \<not> is_linebreak c"
      using raw set_strip [of post] by (auto simp add: split)
    ultimately have "entry_ok (if has_key (strip pre) user
        then AList.map_entry (strip pre) (\<lambda>vs. vs @ [strip post]) user
        else user @ [(strip pre, [strip post])])"
      using ok by (intro entry_ok_colon) (simp_all add: strip_idem)
    then show ?thesis
      unfolding split by (simp add: parse_line_colon [OF pre])
  next
    case False
    then have nc: "CHR '':'' \<notin> set (strip raw)" using set_strip by fastforce
    show ?thesis
    proof (cases "user \<noteq> [] \<and> last (keys user) \<noteq> []")
      case False
      then show ?thesis
        using nc blank ok by (auto simp add: parse_line_def Let_def)
    next
      case True
      then obtain before k vv where user: "user = before @ [(k, vv)]"
        by (metis append_butlast_last_id surj_pair)
      then have "vv \<noteq> []" using ok by (auto simp add: entry_ok_def acc_ok_def)
      then obtain vs v where vv: "vv = vs @ [v]"
        by (metis append_butlast_last_id)
      have dist: "distinct (keys (before @ [(k, vs @ [v])]))"
        using ok by (simp add: entry_ok_def acc_ok_def user vv)
      have k: "k \<noteq> []" using True by (simp add: user keys_def)
      have lk: "last (keys (before @ [(k, vs @ [v])])) = k" by (simp add: keys_def)
      have space: "\<not> is_linebreak CHR '' ''" by (simp add: is_linebreak_def)
      have "parse_line (users, user) raw =
              Inr (users, before @ [(k, vs @ [v @ '' '' @ strip raw])])"
        unfolding user vv using nc blank k
        by (simp add: parse_line_def Let_def lk continue_last_distinct [OF dist] strip_idem)
      moreover have "entry_ok (before @ [(k, vs @ [v @ '' '' @ strip raw])])"
        using ok sraw space by (auto simp add: entry_ok_def acc_ok_def user vv keys_def)
      ultimately show ?thesis by blast
    qed
  qed
qed

lemma parse_lines_plain:
  assumes "entry_ok user" and "\<forall>e \<in> set users. entry_ok e \<and> e \<noteq> []"
    and "\<forall>l \<in> set ls. \<forall>c \<in> set l. \<not> is_linebreak c"
  shows "\<exists>users' user'. parse_lines (users, user) ls = Inr (users', user') \<and> entry_ok user' \<and>
           (\<forall>e \<in> set users'. entry_ok e \<and> e \<noteq> [])"
  using assms
proof (induction ls arbitrary: users user)
  case Nil
  then show ?case by simp
next
  case (Cons l ls)
  have l: "\<forall>c \<in> set l. \<not> is_linebreak c" using Cons.prems(3) by simp
  obtain users1 user1 where step: "parse_line (users, user) l = Inr (users1, user1)"
    and ok1: "entry_ok user1"
    and grow: "users1 = users \<or> (users1 = users @ [user] \<and> user \<noteq> [])"
    using parse_line_plain [OF Cons.prems(1) l, of users] by blast
  have "\<forall>e \<in> set users1. entry_ok e \<and> e \<noteq> []"
    using grow Cons.prems(1,2) by auto
  then obtain users' user' where "parse_lines (users1, user1) ls = Inr (users', user')"
    "entry_ok user'" "\<forall>e \<in> set users'. entry_ok e \<and> e \<noteq> []"
    using Cons.IH [OF ok1, of users1] Cons.prems(3) by auto
  then show ?case using step by simp
qed

text \<open>
  Every entry that the parser returns is not empty, has distinct keys that are stripped
  and have no colon, has a value for each key, and has no line boundary in a key or a
  value.
\<close>

lemma parsed_entries_plain:
  assumes "parse_ldap_output text = Inr entries" and "e \<in> set entries"
  shows "e \<noteq> [] \<and> entry_ok e"
proof -
  have "entry_ok []" by (simp add: entry_ok_def acc_ok_def keys_def)
  then obtain users user where run: "parse_lines ([], []) (splitlines text) = Inr (users, user)"
    and "entry_ok user" "\<forall>e \<in> set users. entry_ok e \<and> e \<noteq> []"
    using parse_lines_plain [of "[]" "[]" "splitlines text"] splitlines_plain by auto
  moreover have "entries = (if user \<noteq> [] then users @ [user] else users)"
    using assms(1) run by (simp add: parse_ldap_output_def)
  ultimately show ?thesis using assms(2) by (auto split: if_splits)
qed

subsection \<open>Round trip of a parsed entry\<close>

text \<open>
  C7. Take an entry that the parser returned for some text, in which every attribute
  has exactly one value and that value has no whitespace at either end (as a value has
  to which no continuation line contributed). Written as one line \<^verbatim>\<open>key: value\<close> for
  each attribute and an empty line, and parsed again, it gives the collection of exactly
  this entry. By \<open>parsed_entries_plain\<close> such an entry is not empty, and its keys are
  distinct, stripped, and free of colons and line boundaries, as its values are of line
  boundaries; \<open>round_trip_plain\<close> is the same statement for any entry of that kind.
\<close>

theorem round_trip:
  assumes parsed: "parse_ldap_output text = Inr entries"
    and entry: "e \<in> set entries"
    and single: "\<forall>vs \<in> snd ` set e. \<exists>v. vs = [v] \<and> strip v = v"
  shows "parse_ldap_output (serialize_entry_spec e) = Inr [e]"
proof -
  have ok: "e \<noteq> [] \<and> entry_ok e"
    using parsed entry by (rule parsed_entries_plain)
  show ?thesis
  proof (rule round_trip_plain)
    show "e \<noteq> []" using ok by simp
    show "distinct (keys e)" using ok by (simp add: entry_ok_def acc_ok_def)
    show "\<forall>k \<in> set (keys e).
          strip k = k \<and> CHR '':'' \<notin> set k \<and> (\<forall>c \<in> set k. \<not> is_linebreak c)"
      using ok by (simp add: entry_ok_def)
    show "\<forall>vs \<in> snd ` set e.
          \<exists>v. vs = [v] \<and> strip v = v \<and> (\<forall>c \<in> set v. \<not> is_linebreak c)"
    proof
      fix vs assume vs: "vs \<in> snd ` set e"
      then obtain v where v: "vs = [v]" "strip v = v" using single by blast
      moreover have "\<forall>c \<in> set v. \<not> is_linebreak c"
        using ok vs v(1) by (auto simp add: entry_ok_def)
      ultimately show "\<exists>v. vs = [v] \<and> strip v = v \<and> (\<forall>c \<in> set v. \<not> is_linebreak c)"
        by blast
    qed
  qed
qed

theorem round_trip_witness:
  "parse_ldap_output ''cn: alice\<newline>mail:a@x.com  \<newline>'' =
     Inr [[(''cn'', [''alice'']), (''mail'', [''a@x.com''])]] \<and>
   serialize_entry_spec [(''cn'', [''alice'']), (''mail'', [''a@x.com''])] =
     ''cn: alice\<newline>mail: a@x.com\<newline>\<newline>'' \<and>
   parse_ldap_output (serialize_entry_spec [(''cn'', [''alice'']), (''mail'', [''a@x.com''])]) =
     Inr [[(''cn'', [''alice'']), (''mail'', [''a@x.com''])]]"
proof -
  let ?e = "[(''cn'', [''alice'']), (''mail'', [''a@x.com''])]"
  have h1: "parse_ldap_output ''cn: alice\<newline>mail:a@x.com  \<newline>'' = Inr [?e]"
    by (simp add: parse_ldap_output_def splitlines_def is_linebreak_def parse_line_def
        strip_def is_space_def split_colon_def has_key_def keys_def)
  have h2: "?e \<in> set [?e]" by simp
  have h3: "\<forall>vs \<in> snd ` set ?e. \<exists>v. vs = [v] \<and> strip v = v"
    by (simp add: strip_def is_space_def)
  have written: "serialize_entry_spec ?e = ''cn: alice\<newline>mail: a@x.com\<newline>\<newline>''"
    by (simp add: serialize_entry_spec_def)
  show ?thesis
    using round_trip [OF h1 h2 h3] h1 written by (intro conjI)
qed

end
